theory Spec2Isabelle
  imports Main
begin

section \<open>The TapFlow resource plug-in (heat/engine/resources/openstack/neutron/tap\_flow.py)\<close>

subsection \<open>Exceptions and the calls made on the client plug-in\<close>

text \<open>
  The exceptions the plug-in distinguishes: \<open>NotFound\<close> is
  \<open>neutronclient.common.exceptions.NotFound\<close>, \<open>ResourceInError\<close> is
  \<open>heat.common.exception.ResourceInError\<close>, \<open>KeyError\<close> is Python's own (a missing
  dictionary key), and \<open>OtherException\<close> stands for every other exception a client call
  may raise.
\<close>

datatype exn = NotFound | ResourceInError | KeyError string | OtherException string

text \<open>
  A request sent to the client plug-in, with its arguments in the order of the Python call.
  A dictionary is an association list; a value that may be Python's \<open>None\<close> is an option,
  and so is \<open>self.resource_id\<close>, which the methods pass on as it is.
\<close>

datatype call =
    Create_taas_resource string "(string \<times> string option) list"
  | Update_taas_resource string "(string \<times> string option) list" "string option"
  | Delete_taas_resource string "string option"
  | Check_taas_resource_status string "string option"

datatype outcome = Returned | Raised exn

subsection \<open>The collaborators that are not part of the file\<close>

text \<open>
  The client plug-in (\<open>self.client_plugin()\<close>) and the methods inherited from
  \<open>NeutronResource\<close> are parameters of the model. The backend behind the client has a state
  of an arbitrary type \<open>'b\<close>; every client call takes it and returns it updated, together
  with the value returned or the exception raised. \<open>is_not_found\<close> is the predicate behind
  the plug-in's \<open>ignore_not_found\<close> context manager.
\<close>

record 'b neutron =
  create_taas_resource ::
    "string \<Rightarrow> (string \<times> string option) list \<Rightarrow> 'b \<Rightarrow> (exn + (string \<times> string) list) \<times> 'b"
  update_taas_resource ::
    "string \<Rightarrow> (string \<times> string option) list \<Rightarrow> string option \<Rightarrow> 'b \<Rightarrow> (exn + unit) \<times> 'b"
  delete_taas_resource :: "string \<Rightarrow> string option \<Rightarrow> 'b \<Rightarrow> (exn + unit) \<times> 'b"
  check_taas_resource_status :: "string \<Rightarrow> string option \<Rightarrow> 'b \<Rightarrow> (exn + bool) \<times> 'b"
  is_not_found :: "exn \<Rightarrow> bool"
  prepare_properties :: "(string \<times> string option) list \<Rightarrow> string \<Rightarrow> (string \<times> string) list"
  prepare_update_properties ::
    "(string \<times> string option) list \<Rightarrow> (string \<times> string option) list"
  physical_resource_name :: string

subsection \<open>The resource object\<close>

text \<open>
  \<open>self\<close>: the stored resource identity, the property values the template supplies, the
  backend's state, and the log of the client calls made so far, each with its outcome.
\<close>

record 'b tap_flow =
  resource_id :: "string option"
  properties :: "(string \<times> string) list"
  backend :: 'b
  calls :: "(call \<times> outcome) list"

text \<open>A method is a function from \<open>self\<close> to the value returned or exception raised, and
  the updated \<open>self\<close>.\<close>

type_synonym ('b, 'a) py_method = "'b tap_flow \<Rightarrow> (exn + 'a) \<times> 'b tap_flow"

definition ret :: "'a \<Rightarrow> ('b, 'a) py_method" where
  "ret v self = (Inr v, self)"

definition then_do :: "('b, 'a) py_method \<Rightarrow> ('a \<Rightarrow> ('b, 'c) py_method) \<Rightarrow> ('b, 'c) py_method" where
  "then_do m f self =
     (case m self of
        (Inl e, self') \<Rightarrow> (Inl e, self')
      | (Inr v, self') \<Rightarrow> f v self')"

text \<open>\<open>try: body except E: handler\<close>, where \<open>catches\<close> says which exceptions \<open>E\<close> names.\<close>

definition try_except ::
    "('b, 'a) py_method \<Rightarrow> (exn \<Rightarrow> bool) \<Rightarrow> ('b, 'a) py_method \<Rightarrow> ('b, 'a) py_method" where
  "try_except body catches handler self =
     (case body self of
        (Inl e, self') \<Rightarrow> if catches e then handler self' else (Inl e, self')
      | (Inr v, self') \<Rightarrow> (Inr v, self'))"

text \<open>A client call runs on the backend and is appended to the log with its outcome.\<close>

definition outcome_of :: "exn + 'a \<Rightarrow> outcome" where
  "outcome_of r = (case r of Inl e \<Rightarrow> Raised e | Inr v \<Rightarrow> Returned)"

definition client_call ::
    "call \<Rightarrow> ('b \<Rightarrow> (exn + 'a) \<times> 'b) \<Rightarrow> ('b, 'a) py_method" where
  "client_call c f self =
     (case f (backend self) of
        (r, b') \<Rightarrow> (r, self\<lparr>backend := b', calls := calls self @ [(c, outcome_of r)]\<rparr>))"

text \<open>The calls a method made: the entries it added to the log of \<open>self\<close>.\<close>

definition new_calls :: "'b tap_flow \<Rightarrow> 'b tap_flow \<Rightarrow> (call \<times> outcome) list" where
  "new_calls before after = drop (length (calls before)) (calls after)"

definition call_create ::
    "'b neutron \<Rightarrow> (string \<times> string option) list \<Rightarrow> ('b, (string \<times> string) list) py_method" where
  "call_create env body =
     client_call (Create_taas_resource ''tap_flow'' body)
       (create_taas_resource env ''tap_flow'' body)"

definition call_update ::
    "'b neutron \<Rightarrow> (string \<times> string option) list \<Rightarrow> string option \<Rightarrow> ('b, unit) py_method" where
  "call_update env prop_diff rid =
     client_call (Update_taas_resource ''tap_flow'' prop_diff rid)
       (update_taas_resource env ''tap_flow'' prop_diff rid)"

definition call_delete :: "'b neutron \<Rightarrow> string option \<Rightarrow> ('b, unit) py_method" where
  "call_delete env rid =
     client_call (Delete_taas_resource ''tap_flow'' rid)
       (delete_taas_resource env ''tap_flow'' rid)"

definition call_check_status :: "'b neutron \<Rightarrow> string option \<Rightarrow> ('b, bool) py_method" where
  "call_check_status env rid =
     client_call (Check_taas_resource_status ''tap_flow'' rid)
       (check_taas_resource_status env ''tap_flow'' rid)"

subsection \<open>The properties schema\<close>

datatype constraint = CustomConstraint string | AllowedValues "string list"

record Schema =
  description :: string
  default :: "string option"
  required :: bool
  update_allowed :: bool
  constraints :: "constraint list"

definition NAME :: string where "NAME = ''name''"
definition DESCRIPTION :: string where "DESCRIPTION = ''description''"
definition PORT :: string where "PORT = ''port''"
definition TAP_SERVICE :: string where "TAP_SERVICE = ''tap_service''"
definition DIRECTION :: string where "DIRECTION = ''direction''"

definition PROPERTIES :: "string list" where
  "PROPERTIES = [NAME, DESCRIPTION, PORT, TAP_SERVICE, DIRECTION]"

text \<open>Every property of the schema has the type \<open>Schema.STRING\<close>.\<close>

definition properties_schema :: "(string \<times> Schema) list" where
  "properties_schema =
    [(NAME, \<lparr>description = ''Name for the Tap-Flow.'', default = None, required = False,
             update_allowed = True, constraints = []\<rparr>),
     (DESCRIPTION, \<lparr>description = ''Description for the Tap-Flow.'', default = None,
             required = False, update_allowed = True, constraints = []\<rparr>),
     (PORT, \<lparr>description = ''ID or name of the tap-flow neutron port.'', default = None,
             required = True, update_allowed = False,
             constraints = [CustomConstraint ''neutron.port'']\<rparr>),
     (TAP_SERVICE, \<lparr>description = ''ID or name of the neutron tap-service.'', default = None,
             required = True, update_allowed = False,
             constraints = [CustomConstraint ''neutron.tap_service'']\<rparr>),
     (DIRECTION, \<lparr>description = ''The Direction to capture the traffic on.'',
             default = Some ''BOTH'', required = False, update_allowed = False,
             constraints = [AllowedValues [''IN'', ''OUT'', ''BOTH'']]\<rparr>)]"

text \<open>
  \<open>heat.engine.properties\<close> and \<open>heat.engine.constraints\<close> are not part of the file. The
  schema's keywords are read as follows: a property the template does not supply has the
  schema's \<open>default\<close> (\<open>None\<close> without one); validation refuses a missing \<open>required\<close>
  property, a name the schema does not list, and a supplied value that fails one of the
  property's constraints. \<open>AllowedValues\<close> holds of the listed values only; what a
  \<open>CustomConstraint\<close> accepts is the parameter \<open>custom\<close>.
\<close>

definition property_value :: "(string \<times> Schema) list \<Rightarrow> (string \<times> string) list \<Rightarrow> string \<Rightarrow> string option" where
  "property_value schema data key =
     (case map_of data key of
        Some v \<Rightarrow> Some v
      | None \<Rightarrow> (case map_of schema key of Some sch \<Rightarrow> default sch | None \<Rightarrow> None))"

definition properties_items ::
    "(string \<times> Schema) list \<Rightarrow> (string \<times> string) list \<Rightarrow> (string \<times> string option) list" where
  "properties_items schema data = map (\<lambda>(key, sch). (key, property_value schema data key)) schema"

fun constraint_ok :: "(string \<Rightarrow> string \<Rightarrow> bool) \<Rightarrow> constraint \<Rightarrow> string \<Rightarrow> bool" where
  "constraint_ok custom (AllowedValues allowed) v = (v \<in> set allowed)"
| "constraint_ok custom (CustomConstraint name) v = custom name v"

definition property_ok ::
    "(string \<Rightarrow> string \<Rightarrow> bool) \<Rightarrow> (string \<times> string) list \<Rightarrow> string \<times> Schema \<Rightarrow> bool" where
  "property_ok custom data entry =
     (case map_of data (fst entry) of
        None \<Rightarrow> \<not> required (snd entry)
      | Some v \<Rightarrow> list_all (\<lambda>c. constraint_ok custom c v) (constraints (snd entry)))"

definition validate ::
    "(string \<Rightarrow> string \<Rightarrow> bool) \<Rightarrow> (string \<times> Schema) list \<Rightarrow> (string \<times> string) list \<Rightarrow> bool" where
  "validate custom schema data =
     (list_all (\<lambda>(key, v). key \<in> set (map fst schema)) data \<and>
      list_all (property_ok custom data) schema)"

subsection \<open>The handlers\<close>

definition resource_id_set :: "string \<Rightarrow> ('b, unit) py_method" where
  "resource_id_set rid self = (Inr (), self\<lparr>resource_id := Some rid\<rparr>)"

definition dict_item :: "(string \<times> string) list \<Rightarrow> string \<Rightarrow> ('b, string) py_method" where
  "dict_item d key self =
     (case map_of d key of None \<Rightarrow> (Inl (KeyError key), self) | Some v \<Rightarrow> (Inr v, self))"

definition to_client_of :: "(string \<times> string) list \<Rightarrow> (string \<times> string option) list" where
  "to_client_of props =
     [(''name'', map_of props NAME),
      (''description'', map_of props DESCRIPTION),
      (''source_port'', map_of props PORT),
      (''tap_service_id'', map_of props TAP_SERVICE),
      (''direction'', map_of props DIRECTION)]"

definition handle_create :: "'b neutron \<Rightarrow> ('b, unit) py_method" where
  "handle_create env self =
     (let props = prepare_properties env
                    (properties_items properties_schema (properties self))
                    (physical_resource_name env);
          to_client = to_client_of props
      in then_do (call_create env to_client)
           (\<lambda>tap_flow. then_do (dict_item tap_flow ''id'') resource_id_set) self)"

text \<open>\<open>json_snippet\<close> and \<open>tmpl_diff\<close> are not used by the method and are left out.
  \<open>prepare_update_properties\<close> changes \<open>prop_diff\<close> in place; the changed dictionary is
  what the client receives.\<close>

definition handle_update :: "'b neutron \<Rightarrow> (string \<times> string option) list \<Rightarrow> ('b, unit) py_method" where
  "handle_update env prop_diff self =
     (if prop_diff \<noteq> [] then
        call_update env (prepare_update_properties env prop_diff) (resource_id self) self
      else (Inr (), self))"

definition handle_delete :: "'b neutron \<Rightarrow> ('b, unit) py_method" where
  "handle_delete env self =
     (if resource_id self = None then (Inr (), self)
      else try_except (call_delete env (resource_id self)) (is_not_found env) (ret ()) self)"

definition check_create_complete :: "'b neutron \<Rightarrow> ('b, bool) py_method" where
  "check_create_complete env self = call_check_status env (resource_id self) self"

definition check_update_complete ::
    "'b neutron \<Rightarrow> (string \<times> string option) list \<Rightarrow> ('b, bool) py_method" where
  "check_update_complete env prop_diff self =
     (if prop_diff \<noteq> [] then call_check_status env (resource_id self) self
      else (Inr True, self))"

definition check_delete_complete :: "'b neutron \<Rightarrow> ('b, bool) py_method" where
  "check_delete_complete env self =
     (if resource_id self = None then (Inr True, self)
      else
        try_except
          (then_do
             (try_except
                (then_do (call_check_status env (resource_id self))
                   (\<lambda>active. if active then call_delete env (resource_id self) else ret ()))
                (\<lambda>e. e = ResourceInError)
                (call_delete env (resource_id self)))
             (\<lambda>_. ret False))
          (\<lambda>e. e = NotFound)
          (ret True) self)"

subsection \<open>A sample backend\<close>

text \<open>
  A backend to run the handlers on: it holds the tap flows that exist, each with its status.
  A request naming a tap flow it does not hold raises \<open>NotFound\<close>; the status check raises
  \<open>ResourceInError\<close> for a tap flow whose status is \<open>ERROR\<close> and says whether any other is
  \<open>ACTIVE\<close>. \<open>sample_prepare_properties\<close> drops the properties that are \<open>None\<close> and
  names a resource that has no name.
\<close>

definition sample_status ::
    "string \<Rightarrow> string option \<Rightarrow> (string \<times> string) list \<Rightarrow> (exn + bool) \<times> (string \<times> string) list" where
  "sample_status kind rid b =
     (case rid of
        None \<Rightarrow> (Inl NotFound, b)
      | Some i \<Rightarrow>
          (case map_of b i of
             None \<Rightarrow> (Inl NotFound, b)
           | Some st \<Rightarrow> if st = ''ERROR'' then (Inl ResourceInError, b) else (Inr (st = ''ACTIVE''), b)))"

definition sample_delete ::
    "string \<Rightarrow> string option \<Rightarrow> (string \<times> string) list \<Rightarrow> (exn + unit) \<times> (string \<times> string) list" where
  "sample_delete kind rid b =
     (case rid of
        None \<Rightarrow> (Inl NotFound, b)
      | Some i \<Rightarrow>
          (case map_of b i of
             None \<Rightarrow> (Inl NotFound, b)
           | Some st \<Rightarrow> (Inr (), filter (\<lambda>e. fst e \<noteq> i) b)))"

definition sample_create ::
    "string \<Rightarrow> (string \<times> string option) list \<Rightarrow> (string \<times> string) list
       \<Rightarrow> (exn + (string \<times> string) list) \<times> (string \<times> string) list" where
  "sample_create kind body b =
     (let i = (case map_of body ''name'' of Some (Some n) \<Rightarrow> n | _ \<Rightarrow> ''tap_flow'')
      in (Inr [(''id'', i)], (i, ''ACTIVE'') # b))"

definition sample_update ::
    "string \<Rightarrow> (string \<times> string option) list \<Rightarrow> string option \<Rightarrow> (string \<times> string) list
       \<Rightarrow> (exn + unit) \<times> (string \<times> string) list" where
  "sample_update kind prop_diff rid b =
     (case rid of
        None \<Rightarrow> (Inl NotFound, b)
      | Some i \<Rightarrow> (case map_of b i of None \<Rightarrow> (Inl NotFound, b) | Some st \<Rightarrow> (Inr (), b)))"

definition sample_prepare_properties ::
    "(string \<times> string option) list \<Rightarrow> string \<Rightarrow> (string \<times> string) list" where
  "sample_prepare_properties items name =
     (let props = concat (map (\<lambda>(k, v). case v of None \<Rightarrow> [] | Some x \<Rightarrow> [(k, x)]) items)
      in if ''name'' \<in> set (map fst items) \<and> ''name'' \<notin> set (map fst props)
         then props @ [(''name'', name)] else props)"

definition sample_neutron :: "(string \<times> string) list neutron" where
  "sample_neutron =
     \<lparr>create_taas_resource = sample_create,
      update_taas_resource = sample_update,
      delete_taas_resource = sample_delete,
      check_taas_resource_status = sample_status,
      is_not_found = (\<lambda>e. e = NotFound),
      prepare_properties = sample_prepare_properties,
      prepare_update_properties = (\<lambda>d. d),
      physical_resource_name = ''stack-flow-x1''\<rparr>"

text \<open>
  A client as a resource's owner may meet it when somebody else removes the tap flow
  between the status check and the delete request: the check still answers, the delete
  raises \<open>NotFound\<close>.
\<close>

definition racing_neutron :: "unit neutron" where
  "racing_neutron =
     \<lparr>create_taas_resource = (\<lambda>kind body b. (Inr [(''id'', ''f1'')], b)),
      update_taas_resource = (\<lambda>kind d rid b. (Inl NotFound, b)),
      delete_taas_resource = (\<lambda>kind rid b. (Inl NotFound, b)),
      check_taas_resource_status = (\<lambda>kind rid b. (Inr True, b)),
      is_not_found = (\<lambda>e. e = NotFound),
      prepare_properties = sample_prepare_properties,
      prepare_update_properties = (\<lambda>d. d),
      physical_resource_name = ''stack-flow-x1''\<rparr>"

definition sample_flow :: "string option \<Rightarrow> (string \<times> string) list \<Rightarrow> (string \<times> string) list tap_flow" where
  "sample_flow rid b =
     \<lparr>resource_id = rid,
      properties = [(''port'', ''p1''), (''tap_service'', ''ts1'')],
      backend = b, calls = []\<rparr>"

definition racing_flow :: "unit tap_flow" where
  "racing_flow = \<lparr>resource_id = Some ''f1'', properties = [], backend = (), calls = []\<rparr>"

definition raised_not_found :: "call \<times> outcome \<Rightarrow> bool" where
  "raised_not_found entry = (snd entry = Raised NotFound)"

section \<open>The convergence core\<close>

text \<open>
  The scenario script \<open>update_user_replace_rollback_update.py\<close> drives an engine
  (\<open>Template\<close>, \<open>RsrcDef\<close>, \<open>GetAtt\<close>, \<open>GetRes\<close>, \<open>engine.create_stack\<close>, ...) whose code
  is not among the source files. Every definition of this section is therefore written
  from the specification, and says so.
\<close>

subsection \<open>Templates\<close>

text \<open>Modelled from the spec: the property values of the engine's template model (section 3;
  section 9: a tagged variant \<open>Literal | AttributeRef | ResourceRef\<close>). \<open>GetAtt\<close> of the
  scenario script is \<open>AttributeRef\<close>, \<open>GetRes\<close> is \<open>ResourceRef\<close>.\<close>

datatype PropertyValue = Literal string | AttributeRef string string | ResourceRef string

text \<open>Modelled from the spec: the engine's \<open>RsrcDef\<close> (section 3, ResourceDefinition): a set
  of property values plus an explicit list of dependency names.\<close>

record ResourceDefinition =
  props :: "(string \<times> PropertyValue) list"
  depends_on :: "string list"

text \<open>Modelled from the spec: the engine's \<open>Template\<close> (section 3): a mapping from resource
  name to ResourceDefinition, here an association list whose keys are distinct.\<close>

type_synonym Template = "(string \<times> ResourceDefinition) list"

text \<open>Modelled from the spec: the engine's errors (section 7, taxonomy).\<close>

datatype error =
    UnknownResourceError string
  | CyclicDependencyError "string list"
  | UnresolvedAttributeError string string
  | DependencyFailedError string
  | ConcurrentOperationError
  | AlreadyExistsError
  | NoRollbackTargetError
  | ResourceOperationError string

text \<open>Modelled from the spec: the resource a property value names (section 4.2: every
  resource name appearing in an AttributeRef/ResourceRef).\<close>

fun references :: "PropertyValue \<Rightarrow> string list" where
  "references (Literal v) = []"
| "references (AttributeRef r a) = [r]"
| "references (ResourceRef r) = [r]"

text \<open>Modelled from the spec: the edge set of a resource (section 4.2): the union of its
  explicit dependency list and every resource named by a reference in its properties.\<close>

definition edges_of :: "ResourceDefinition \<Rightarrow> string list" where
  "edges_of d = depends_on d @ concat (map (\<lambda>(k, v). references v) (props d))"

text \<open>Modelled from the spec: template construction (section 4.1): every referenced
  resource name must exist in the template, or construction fails with
  \<open>UnknownResourceError\<close>.\<close>

definition unknown_names :: "Template \<Rightarrow> string list" where
  "unknown_names t =
     filter (\<lambda>r. r \<notin> set (map fst t)) (concat (map (\<lambda>(n, d). edges_of d) t))"

definition make_template :: "(string \<times> ResourceDefinition) list \<Rightarrow> error + Template" where
  "make_template rs =
     (case unknown_names rs of [] \<Rightarrow> Inr rs | r # rest \<Rightarrow> Inl (UnknownResourceError r))"

subsection \<open>The dependency graph builder\<close>

text \<open>Modelled from the spec: the engine's DependencyGraph (sections 3 and 4.2), kept as the
  list of the resources, each with its edge set, in the topological order the builder
  found: a resource comes after the resources it depends on.\<close>

type_synonym DependencyGraph = "(string \<times> string list) list"

text \<open>Modelled from the spec: the builder's cycle detection via topological sort (section
  4.2). Each round places the pending resources all of whose edges lead to resources
  already placed; when resources are pending and none can be placed the references form a
  cycle, and the sort fails with \<open>CyclicDependencyError\<close>, naming the resources it could
  not place (the members of the cycles and the resources that depend on them).\<close>

definition placeable :: "DependencyGraph \<Rightarrow> string \<times> string list \<Rightarrow> bool" where
  "placeable placed e = (set (snd e) \<subseteq> set (map fst placed))"

function topo_sort :: "DependencyGraph \<Rightarrow> DependencyGraph \<Rightarrow> error + DependencyGraph" where
  "topo_sort pending placed =
     (if pending = [] then Inr placed
      else if filter (placeable placed) pending = [] then
        Inl (CyclicDependencyError (map fst pending))
      else topo_sort (filter (\<lambda>e. \<not> placeable placed e) pending)
             (placed @ filter (placeable placed) pending))"
  by pat_completeness auto
termination
proof (relation "measure (\<lambda>(pending, placed). length pending)")
  show "wf (measure (\<lambda>(pending, placed). length pending))" by simp
next
  fix pending placed :: DependencyGraph
  assume "filter (placeable placed) pending \<noteq> []"
  then obtain e where "e \<in> set pending" and "placeable placed e"
    by (auto simp: filter_empty_conv)
  then have "length (filter (\<lambda>e. \<not> placeable placed e) pending) < length pending"
    by (intro length_filter_less [of e]) simp_all
  then show "((filter (\<lambda>e. \<not> placeable placed e) pending,
            placed @ filter (placeable placed) pending), (pending, placed))
         \<in> measure (\<lambda>(pending, placed). length pending)"
    by simp
qed

declare topo_sort.simps [simp del]

text \<open>Modelled from the spec: the Dependency Graph Builder (section 4.2): input a Template,
  output a DependencyGraph.\<close>

definition entries :: "Template \<Rightarrow> DependencyGraph" where
  "entries t = map (\<lambda>(n, d). (n, edges_of d)) t"

definition build_graph :: "Template \<Rightarrow> error + DependencyGraph" where
  "build_graph t = topo_sort (entries t) []"

text \<open>The edges of a graph and of a template as relations: \<open>(a, b)\<close> when \<open>a\<close> depends on
  \<open>b\<close>; used to state what the builder and the scheduler achieve, not by them.\<close>

definition graph_rel :: "DependencyGraph \<Rightarrow> (string \<times> string) set" where
  "graph_rel g = {(n, r). \<exists>es. (n, es) \<in> set g \<and> r \<in> set es}"

definition edge_rel :: "Template \<Rightarrow> (string \<times> string) set" where
  "edge_rel t = {(n, r). \<exists>d. (n, d) \<in> set t \<and> r \<in> set (edges_of d)}"

text \<open>A list of resources with their edges is in topological order when every edge of a
  resource leads to a resource listed before it (\<open>seen\<close> holds the names already passed).\<close>

fun topo_ordered :: "string list \<Rightarrow> DependencyGraph \<Rightarrow> bool" where
  "topo_ordered seen [] = True"
| "topo_ordered seen ((n, es) # g) =
     (set es \<subseteq> set seen \<and> n \<notin> set seen \<and> topo_ordered (n # seen) g)"

text \<open>A graph is a topological order of a template when it lists exactly the template's
  resources, each with its edge set, in topological order.\<close>

definition topological_order_of :: "Template \<Rightarrow> DependencyGraph \<Rightarrow> bool" where
  "topological_order_of t g = (set g = set (entries t) \<and> topo_ordered [] g)"

subsection \<open>Resource nodes and the external collaborator\<close>

text \<open>Modelled from the spec: the states of the resource node state machine (section 4.3).\<close>

datatype node_state = PENDING | READY | IN_PROGRESS | COMPLETE | FAILED

text \<open>Modelled from the spec: the operations a node dispatches to its collaborator
  (section 4.3: create/update/delete).\<close>

datatype operation = Create | Update | Delete

text \<open>Modelled from the spec: the engine's ResourceNode (section 3): its identity in the
  arena of nodes, its state, its resolved property values and its produced output values.
  \<open>realised\<close> is the definition the resource has after its last completed create or
  update, \<open>target\<close> the definition of the operation last dispatched, \<open>identity\<close> the
  resource identity the collaborator's create returned, \<open>failure\<close> the error of a FAILED
  node.\<close>

record ResourceNode =
  node_id :: nat
  state :: node_state
  node_op :: operation
  realised :: "ResourceDefinition option"
  target :: "ResourceDefinition option"
  resolved :: "(string \<times> string) list"
  outputs :: "(string \<times> string) list"
  identity :: "string option"
  failure :: "error option"

text \<open>Modelled from the spec: the interface to the resource plug-ins (section 6), which the
  core consumes and does not implement. The collaborator is a parameter: its answers are
  arbitrary functions of the tick at which it is asked and of the node that asks.
  \<open>create_identity\<close> is the identity \<open>create\<close> returns; \<open>check_operation_complete\<close> is
  the non-blocking completion check, \<open>Inr\<close> the complete/incomplete signal and \<open>Inl\<close> the
  message of a \<open>ResourceOperationError\<close>; \<open>get_attributes\<close> is \<open>get_attribute\<close> for all
  attribute names at once, the output value set of a completed operation.\<close>

record collaborator =
  create_identity :: "nat \<Rightarrow> string \<Rightarrow> (string \<times> string) list \<Rightarrow> string"
  check_operation_complete :: "nat \<Rightarrow> string \<Rightarrow> operation \<Rightarrow> string + bool"
  get_attributes :: "nat \<Rightarrow> string \<Rightarrow> (string \<times> string) list \<Rightarrow> (string \<times> string) list"

subsection \<open>The stack\<close>

text \<open>Modelled from the spec: the overall stack status observers query (section 4.5).\<close>

datatype stack_status = STACK_IN_PROGRESS | STACK_COMPLETE | STACK_FAILED

text \<open>Modelled from the spec: the kind of the stack's last operation (section 4.5); a
  rollback counts as the update it re-issues.\<close>

datatype stack_action = CREATE | UPDATE | DELETE

text \<open>Modelled from the spec: the engine's Stack (section 3) with its traversal (section 3,
  ConvergenceTraversal): the current (last successfully converged) template, the goal
  template and its dependency graph, the arena of nodes keyed by resource name, whether a
  traversal is in flight, the overall status, the tick counter, and the operations the
  traversal has dispatched so far. The frontier, the in-progress set and the completed
  set of the traversal are the nodes in the respective states.\<close>

record Stack =
  stack_name :: string
  current :: "Template option"
  goal :: Template
  graph :: DependencyGraph
  nodes :: "(string \<times> ResourceNode) list"
  in_flight :: bool
  status :: stack_status
  action :: stack_action
  next_id :: nat
  clock :: nat
  dispatched :: "(string \<times> operation) list"

text \<open>Modelled from the spec: a stack that has not been created (section 4.5: no current
  template).\<close>

definition new_stack :: "string \<Rightarrow> Stack" where
  "new_stack nm =
     \<lparr>stack_name = nm, current = None, goal = [], graph = [], nodes = [], in_flight = False,
      status = STACK_COMPLETE, action = CREATE, next_id = 0, clock = 0, dispatched = []\<rparr>"

text \<open>Modelled from the spec: a node as the graph builder creates it (section 4.3: PENDING
  is the initial state).\<close>

definition new_node :: "nat \<Rightarrow> ResourceNode" where
  "new_node i =
     \<lparr>node_id = i, state = PENDING, node_op = Create, realised = None, target = None,
      resolved = [], outputs = [], identity = None, failure = None\<rparr>"

definition state_of :: "(string \<times> ResourceNode) list \<Rightarrow> string \<Rightarrow> node_state option" where
  "state_of ns n = map_option state (map_of ns n)"

definition update_node ::
    "string \<Rightarrow> (ResourceNode \<Rightarrow> ResourceNode) \<Rightarrow> (string \<times> ResourceNode) list
       \<Rightarrow> (string \<times> ResourceNode) list" where
  "update_node n f ns = map (\<lambda>(k, nd). if k = n then (k, f nd) else (k, nd)) ns"

subsection \<open>Starting a traversal\<close>

text \<open>Modelled from the spec: the structural comparison behind an update (sections 4.1 and
  4.5): a node is unchanged when the goal template holds its resource with the definition
  the resource has.\<close>

definition at_goal :: "Template \<Rightarrow> string \<Rightarrow> ResourceNode \<Rightarrow> bool" where
  "at_goal g n nd = (map_of g n \<noteq> None \<and> realised nd = map_of g n)"

text \<open>Modelled from the spec: rebuilding the graph for a goal template (sections 4.2, 4.3,
  4.5 and 5). An unchanged COMPLETE node remains COMPLETE and is not touched; a COMPLETE
  node whose definition changed or that is absent from the goal re-enters PENDING, keeping
  its outputs; an operation in flight is allowed to finish; a FAILED node re-enters
  PENDING for the new goal.\<close>

definition rebuild_node :: "Template \<Rightarrow> string \<times> ResourceNode \<Rightarrow> string \<times> ResourceNode" where
  "rebuild_node g e =
     (case e of (n, nd) \<Rightarrow>
        (n, case state nd of
              IN_PROGRESS \<Rightarrow> nd
            | COMPLETE \<Rightarrow> if at_goal g n nd then nd else nd\<lparr>state := PENDING\<rparr>
            | FAILED \<Rightarrow> nd\<lparr>state := PENDING, failure := None\<rparr>
            | READY \<Rightarrow> nd\<lparr>state := PENDING\<rparr>
            | PENDING \<Rightarrow> nd))"

text \<open>Modelled from the spec: node creation by the graph builder (sections 3 and 4.2): a
  resource name without a node gets a new PENDING node; an existing node is reused.\<close>

fun add_nodes ::
    "string list \<Rightarrow> nat \<Rightarrow> (string \<times> ResourceNode) list \<Rightarrow> (string \<times> ResourceNode) list \<times> nat" where
  "add_nodes [] i ns = (ns, i)"
| "add_nodes (n # rest) i ns =
     (if n \<in> set (map fst ns) then add_nodes rest i ns
      else add_nodes rest (Suc i) (ns @ [(n, new_node i)]))"

text \<open>Modelled from the spec: the start of a traversal toward a goal template (section
  4.5); the goal supersedes the previous one (section 5).\<close>

definition begin_traversal :: "stack_action \<Rightarrow> Template \<Rightarrow> DependencyGraph \<Rightarrow> Stack \<Rightarrow> Stack" where
  "begin_traversal a t g s =
     (case add_nodes (map fst t) (next_id s) (map (rebuild_node t) (nodes s)) of
        (ns, i) \<Rightarrow>
          s\<lparr>goal := t, graph := g, nodes := ns, next_id := i, in_flight := True,
            status := STACK_IN_PROGRESS, action := a, dispatched := []\<rparr>)"

subsection \<open>The scheduler\<close>

text \<open>Modelled from the spec: the nodes whose dependencies are satisfied (section 4.3,
  READY: all dependency nodes COMPLETE), found in one pass over the graph in its
  topological order: a node is settled when it is COMPLETE and its edges lead to settled
  nodes, so that every node it depends on, directly or through other nodes, is COMPLETE.\<close>

fun settled ::
    "(string \<times> ResourceNode) list \<Rightarrow> DependencyGraph \<Rightarrow> string list \<Rightarrow> string list" where
  "settled ns [] acc = acc"
| "settled ns ((n, es) # g) acc =
     settled ns g (if state_of ns n = Some COMPLETE \<and> set es \<subseteq> set acc then n # acc else acc)"

definition defn_edges :: "ResourceDefinition option \<Rightarrow> string list" where
  "defn_edges d = (case d of None \<Rightarrow> [] | Some x \<Rightarrow> edges_of x)"

text \<open>Modelled from the spec: a node depends on a resource (section 4.5, reverse dependency
  order of deletes) when the definition its resource has names it, or the definition of
  its operation in flight does.\<close>

definition uses :: "ResourceNode \<Rightarrow> string \<Rightarrow> bool" where
  "uses nd n = (n \<in> set (defn_edges (realised nd)) \<or>
                (state nd = IN_PROGRESS \<and> n \<in> set (defn_edges (target nd))))"

text \<open>Modelled from the spec: when a PENDING node may be promoted (sections 4.3, 4.5 and 5).
  A resource of the goal template is created or updated once all its dependency nodes are
  COMPLETE; a resource absent from the goal is deleted once no other node depends on it.\<close>

definition ready :: "Stack \<Rightarrow> string \<Rightarrow> bool" where
  "ready s n =
     (case map_of (goal s) n of
        Some d \<Rightarrow> set (edges_of d) \<subseteq> set (settled (nodes s) (graph s) [])
      | None \<Rightarrow> list_all (\<lambda>(m, nd). m = n \<or> \<not> uses nd n) (nodes s))"

text \<open>Modelled from the spec: PENDING to READY (section 4.3).\<close>

definition promote :: "Stack \<Rightarrow> Stack" where
  "promote s =
     s\<lparr>nodes := map (\<lambda>(n, nd). if state nd = PENDING \<and> ready s n
                                then (n, nd\<lparr>state := READY\<rparr>) else (n, nd)) (nodes s)\<rparr>"

text \<open>Modelled from the spec: the Attribute Resolver (section 4.6). A reference resolves to
  the current output (an AttributeRef) or the identity (a ResourceRef) of the referenced
  node, and fails with \<open>UnresolvedAttributeError\<close> when that node is not COMPLETE or has
  no such value.\<close>

fun resolve_value :: "(string \<times> ResourceNode) list \<Rightarrow> PropertyValue \<Rightarrow> error + string" where
  "resolve_value ns (Literal v) = Inr v"
| "resolve_value ns (AttributeRef r a) =
     (case map_of ns r of
        None \<Rightarrow> Inl (UnresolvedAttributeError r a)
      | Some nd \<Rightarrow>
          if state nd = COMPLETE then
            (case map_of (outputs nd) a of
               None \<Rightarrow> Inl (UnresolvedAttributeError r a)
             | Some v \<Rightarrow> Inr v)
          else Inl (UnresolvedAttributeError r a))"
| "resolve_value ns (ResourceRef r) =
     (case map_of ns r of
        None \<Rightarrow> Inl (UnresolvedAttributeError r [])
      | Some nd \<Rightarrow>
          if state nd = COMPLETE then
            (case identity nd of
               None \<Rightarrow> Inl (UnresolvedAttributeError r [])
             | Some i \<Rightarrow> Inr i)
          else Inl (UnresolvedAttributeError r []))"

fun resolve_props ::
    "(string \<times> ResourceNode) list \<Rightarrow> (string \<times> PropertyValue) list
       \<Rightarrow> error + (string \<times> string) list" where
  "resolve_props ns [] = Inr []"
| "resolve_props ns ((k, v) # rest) =
     (case resolve_value ns v of
        Inl e \<Rightarrow> Inl e
      | Inr x \<Rightarrow> (case resolve_props ns rest of Inl e \<Rightarrow> Inl e | Inr xs \<Rightarrow> Inr ((k, x) # xs)))"

text \<open>Modelled from the spec: READY to IN\_PROGRESS (sections 4.3 and 4.6): the scheduler
  dispatches the node's operation, resolving the references of its properties at that
  moment. A resource absent from the goal is deleted, one without an identity is created,
  any other updated. A node whose references do not resolve fails without being
  dispatched.\<close>

definition dispatch_node ::
    "collaborator \<Rightarrow> Stack \<Rightarrow> string \<times> ResourceNode \<Rightarrow> string \<times> ResourceNode" where
  "dispatch_node c s e =
     (case e of (n, nd) \<Rightarrow>
        if state nd \<noteq> READY then (n, nd)
        else
          (case map_of (goal s) n of
             None \<Rightarrow> (n, nd\<lparr>state := IN_PROGRESS, node_op := Delete\<rparr>)
           | Some d \<Rightarrow>
               (case resolve_props (nodes s) (props d) of
                  Inl err \<Rightarrow> (n, nd\<lparr>state := FAILED, failure := Some err\<rparr>)
                | Inr rp \<Rightarrow>
                    if identity nd = None then
                      (n, nd\<lparr>state := IN_PROGRESS, node_op := Create, target := Some d,
                              resolved := rp,
                              identity := Some (create_identity c (clock s) n rp)\<rparr>)
                    else
                      (n, nd\<lparr>state := IN_PROGRESS, node_op := Update, target := Some d,
                              resolved := rp\<rparr>))))"

text \<open>The operation dispatched for a node, if one is: the entry the traversal logs.\<close>

definition dispatch_event ::
    "collaborator \<Rightarrow> Stack \<Rightarrow> string \<times> ResourceNode \<Rightarrow> (string \<times> operation) list" where
  "dispatch_event c s e =
     (if state (snd e) = READY \<and> state (snd (dispatch_node c s e)) = IN_PROGRESS
      then [(fst e, node_op (snd (dispatch_node c s e)))] else [])"

text \<open>Modelled from the spec: step (b) of a tick (section 4.4): promote the PENDING nodes
  whose dependencies are COMPLETE to READY and dispatch their operations. Simultaneously
  READY nodes are dispatched in the order of the node arena.\<close>

definition dispatch_phase :: "collaborator \<Rightarrow> Stack \<Rightarrow> Stack" where
  "dispatch_phase c s =
     (let r = promote s
      in r\<lparr>nodes := map (dispatch_node c r) (nodes r),
           dispatched := dispatched r @ concat (map (dispatch_event c r) (nodes r))\<rparr>)"

text \<open>Modelled from the spec: polling one IN\_PROGRESS node (sections 4.3, 4.4 and 5). An
  error the collaborator reports makes the node FAILED. A completed delete destroys the
  node of a resource absent from the goal; a resource the goal has again is left PENDING
  for its creation. A completed create or update switches the outputs to the new values;
  the node is COMPLETE when the operation was for the goal's definition and re-enters
  PENDING otherwise (the goal was superseded while the operation was in flight).\<close>

definition poll_node ::
    "collaborator \<Rightarrow> Stack \<Rightarrow> string \<times> ResourceNode \<Rightarrow> (string \<times> ResourceNode) list" where
  "poll_node c s e =
     (case e of (n, nd) \<Rightarrow>
        if state nd \<noteq> IN_PROGRESS then [(n, nd)]
        else
          (case check_operation_complete c (clock s) n (node_op nd) of
             Inl msg \<Rightarrow> [(n, nd\<lparr>state := FAILED, failure := Some (ResourceOperationError msg)\<rparr>)]
           | Inr False \<Rightarrow> [(n, nd)]
           | Inr True \<Rightarrow>
               if node_op nd = Delete then
                 (if map_of (goal s) n = None then []
                  else [(n, nd\<lparr>state := PENDING, realised := None, target := None,
                               resolved := [], outputs := [], identity := None\<rparr>)])
               else
                 [(n, nd\<lparr>state := (if map_of (goal s) n \<noteq> None \<and> target nd = map_of (goal s) n
                                     then COMPLETE else PENDING),
                         realised := target nd,
                         outputs := get_attributes c (clock s) n (resolved nd)\<rparr>)]))"

text \<open>Modelled from the spec: step (a) of a tick (section 4.4): advance the IN\_PROGRESS
  nodes by polling their collaborator's completion check.\<close>

definition poll_phase :: "collaborator \<Rightarrow> Stack \<Rightarrow> Stack" where
  "poll_phase c s = s\<lparr>nodes := concat (map (poll_node c s) (nodes s))\<rparr>"

text \<open>Modelled from the spec: failure propagation (section 4.3): a FAILED node immediately
  fails every node that transitively depends on it, with \<open>DependencyFailedError\<close> and
  without dispatching. One pass over the graph in its topological order fails each node
  one of whose edges leads to a FAILED node; a node that is FAILED keeps its error.\<close>

definition fail_dependent :: "string \<Rightarrow> ResourceNode \<Rightarrow> ResourceNode" where
  "fail_dependent d nd =
     (if state nd = FAILED then nd
      else nd\<lparr>state := FAILED, failure := Some (DependencyFailedError d)\<rparr>)"

fun propagate_failure ::
    "DependencyGraph \<Rightarrow> (string \<times> ResourceNode) list \<Rightarrow> (string \<times> ResourceNode) list" where
  "propagate_failure [] ns = ns"
| "propagate_failure ((n, es) # g) ns =
     propagate_failure g
       (case find (\<lambda>d. state_of ns d = Some FAILED) es of
          None \<Rightarrow> ns
        | Some d \<Rightarrow> update_node n (fail_dependent d) ns)"

definition propagate :: "Stack \<Rightarrow> Stack" where
  "propagate s = s\<lparr>nodes := propagate_failure (graph s) (nodes s)\<rparr>"

text \<open>Modelled from the spec: step (c) of a tick (sections 4.4, 4.5 and 5): the traversal is
  finished when a node is FAILED (the stack reaches FAILED) or every node is COMPLETE (the
  stack reaches COMPLETE and the goal becomes the current template; a deleted stack
  ceases to exist).\<close>

definition finish :: "Stack \<Rightarrow> Stack" where
  "finish s =
     (if list_ex (\<lambda>(n, nd). state nd = FAILED) (nodes s) then
        s\<lparr>in_flight := False, status := STACK_FAILED\<rparr>
      else if list_all (\<lambda>(n, nd). state nd = COMPLETE) (nodes s) then
        s\<lparr>in_flight := False, status := STACK_COMPLETE,
          current := (if action s = DELETE then None else Some (goal s))\<rparr>
      else s)"

text \<open>The state in which a tick dispatches: the IN\_PROGRESS nodes have been polled,
  failures propagated, and the ready nodes promoted.\<close>

definition at_dispatch :: "collaborator \<Rightarrow> Stack \<Rightarrow> Stack" where
  "at_dispatch c s = promote (propagate (poll_phase c s))"

text \<open>Modelled from the spec: one tick of the Convergence Scheduler (section 4.4): poll,
  with failures propagated at once; promote and dispatch; report whether the traversal is
  finished. Without a traversal in flight a tick only lets the time pass.\<close>

definition tick :: "collaborator \<Rightarrow> Stack \<Rightarrow> Stack" where
  "tick c s =
     (if \<not> in_flight s then s\<lparr>clock := Suc (clock s)\<rparr>
      else (finish (propagate (dispatch_phase c (propagate (poll_phase c s)))))
             \<lparr>clock := Suc (clock s)\<rparr>)"

text \<open>The operations a tick dispatches: what it adds to the traversal's log.\<close>

definition dispatched_by_tick :: "collaborator \<Rightarrow> Stack \<Rightarrow> (string \<times> operation) list" where
  "dispatched_by_tick c s = drop (length (dispatched s)) (dispatched (tick c s))"

text \<open>Modelled from the spec: \<open>advance(stack_name, n_ticks)\<close> of the driving interface
  (section 6; \<open>engine.noop(n)\<close> of the scenario script).\<close>

fun advance :: "collaborator \<Rightarrow> nat \<Rightarrow> Stack \<Rightarrow> Stack" where
  "advance c 0 s = s"
| "advance c (Suc k) s = advance c k (tick c s)"

subsection \<open>The stack controller\<close>

text \<open>Modelled from the spec: what every stack operation does with its goal (sections 4.1,
  4.2 and 4.5): construct the template, build its graph, start the traversal.\<close>

definition start ::
    "stack_action \<Rightarrow> (string \<times> ResourceDefinition) list \<Rightarrow> Stack \<Rightarrow> error + Stack" where
  "start a rs s =
     (case make_template rs of
        Inl e \<Rightarrow> Inl e
      | Inr t \<Rightarrow>
          (case build_graph t of
             Inl e \<Rightarrow> Inl e
           | Inr g \<Rightarrow> Inr (begin_traversal a t g s)))"

text \<open>Modelled from the spec: \<open>create_stack\<close> (section 4.5): fails with
  \<open>AlreadyExistsError\<close> if the stack has a current template; otherwise builds a graph with
  all nodes PENDING and starts a traversal. At most one traversal is in flight per stack
  (section 3).\<close>

definition create_stack :: "(string \<times> ResourceDefinition) list \<Rightarrow> Stack \<Rightarrow> error + Stack" where
  "create_stack rs s =
     (if current s \<noteq> None then Inl AlreadyExistsError
      else if in_flight s then Inl ConcurrentOperationError
      else start CREATE rs (s\<lparr>nodes := []\<rparr>))"

text \<open>Modelled from the spec: \<open>update_stack\<close> (section 4.5): fails with
  \<open>ConcurrentOperationError\<close> if a traversal is in flight; otherwise resources absent
  from the goal are scheduled for delete, changed ones for update, and unchanged ones
  remain COMPLETE.\<close>

definition update_stack :: "(string \<times> ResourceDefinition) list \<Rightarrow> Stack \<Rightarrow> error + Stack" where
  "update_stack rs s =
     (if in_flight s then Inl ConcurrentOperationError
      else start UPDATE rs s)"

text \<open>Modelled from the spec: \<open>rollback_stack\<close> (sections 4.5 and 5): valid only while an
  update's traversal has failed or is incomplete; re-issues the update with the last
  known-good template, the current one, as the goal, superseding the goal in flight.
  Fails with \<open>NoRollbackTargetError\<close> if there is no such template.\<close>

definition rollback_stack :: "Stack \<Rightarrow> error + Stack" where
  "rollback_stack s =
     (if action s = UPDATE \<and> status s \<noteq> STACK_COMPLETE then
        (case current s of
           None \<Rightarrow> Inl NoRollbackTargetError
         | Some t \<Rightarrow> start UPDATE t s)
      else Inl NoRollbackTargetError)"

text \<open>Modelled from the spec: \<open>delete_stack\<close> (section 4.5): schedules the delete of every
  resource (the goal is the empty template); deleting an already-deleted stack is a
  no-op success.\<close>

definition delete_stack :: "Stack \<Rightarrow> error + Stack" where
  "delete_stack s =
     (if in_flight s then Inl ConcurrentOperationError
      else if current s = None \<and> nodes s = [] then Inr s
      else start DELETE [] s)"

text \<open>Modelled from the spec: \<open>get_stack_state\<close> of the driving interface (section 6): the
  template, the per-resource states (with the resolved properties and the outputs), and
  the overall status.\<close>

definition get_stack_state ::
    "Stack \<Rightarrow> Template option
       \<times> (string \<times> node_state \<times> (string \<times> string) list \<times> (string \<times> string) list) list
       \<times> stack_status" where
  "get_stack_state s =
     (current s, map (\<lambda>(n, nd). (n, state nd, resolved nd, outputs nd)) (nodes s), status s)"

text \<open>The resolved value of a property of a resource, as the scenario's \<open>verify\<close> reads it.\<close>

definition property_of :: "Stack \<Rightarrow> string \<Rightarrow> string \<Rightarrow> string option" where
  "property_of s r k = (case map_of (nodes s) r of None \<Rightarrow> None | Some nd \<Rightarrow> map_of (resolved nd) k)"

subsection \<open>Executions\<close>

text \<open>The states a stack can reach: from a stack that does not exist yet, by the
  operations of the driving interface (on templates that are mappings: no resource name
  twice) and by ticks, against a collaborator \<open>c\<close>.\<close>

inductive reachable :: "collaborator \<Rightarrow> Stack \<Rightarrow> bool" for c :: collaborator where
  reach_new: "reachable c (new_stack nm)"
| reach_tick: "reachable c s \<Longrightarrow> reachable c (tick c s)"
| reach_create:
    "reachable c s \<Longrightarrow> distinct (map fst rs) \<Longrightarrow> create_stack rs s = Inr s' \<Longrightarrow> reachable c s'"
| reach_update:
    "reachable c s \<Longrightarrow> distinct (map fst rs) \<Longrightarrow> update_stack rs s = Inr s' \<Longrightarrow> reachable c s'"
| reach_rollback: "reachable c s \<Longrightarrow> rollback_stack s = Inr s' \<Longrightarrow> reachable c s'"
| reach_delete: "reachable c s \<Longrightarrow> delete_stack s = Inr s' \<Longrightarrow> reachable c s'"

subsection \<open>Conditions on the node arena\<close>

text \<open>No node is READY: READY is passed within a tick only.\<close>

definition no_ready :: "(string \<times> ResourceNode) list \<Rightarrow> bool" where
  "no_ready ns = (\<forall>e\<in>set ns. state (snd e) \<noteq> READY)"

text \<open>A COMPLETE node holds the definition the goal template gives its resource.\<close>

definition complete_at_goal :: "Stack \<Rightarrow> bool" where
  "complete_at_goal s =
     (\<forall>e\<in>set (nodes s). state (snd e) = COMPLETE \<longrightarrow> at_goal (goal s) (fst e) (snd e))"

text \<open>A stack at rest in the status COMPLETE has all its nodes COMPLETE, and its current
  template, if it has one, is the goal it converged to.\<close>

definition rest_ok :: "Stack \<Rightarrow> bool" where
  "rest_ok s =
     (\<not> in_flight s \<and> status s = STACK_COMPLETE \<longrightarrow>
        (\<forall>e\<in>set (nodes s). state (snd e) = COMPLETE) \<and>
        (current s = None \<or> current s = Some (goal s)))"

text \<open>The second node is the first one as far as the resource goes: the same node, the
  same resource identity, the same outputs, resolved properties and definition.\<close>

definition same_resource :: "ResourceNode \<Rightarrow> ResourceNode \<Rightarrow> bool" where
  "same_resource nd nd' =
     (node_id nd' = node_id nd \<and> identity nd' = identity nd \<and> outputs nd' = outputs nd \<and>
      resolved nd' = resolved nd \<and> realised nd' = realised nd)"

text \<open>The traversal of a stack has left the resource \<open>x\<close> with the node \<open>nd\<close> alone: no
  operation was dispatched for it, and its node is \<open>nd\<close> as far as the resource goes, COMPLETE
  or failed for a dependency.\<close>

definition kept :: "string \<Rightarrow> ResourceNode \<Rightarrow> Stack \<Rightarrow> bool" where
  "kept x nd s =
     (distinct (map fst (nodes s)) \<and> x \<notin> fst ` set (dispatched s) \<and>
      (\<exists>nd'. map_of (nodes s) x = Some nd' \<and> (state nd' = COMPLETE \<or> state nd' = FAILED) \<and>
             same_resource nd nd'))"

subsection \<open>The scenario\<close>

text \<open>The templates of \<open>update_user_replace_rollback_update.py\<close>, lines 14 to 45.\<close>

definition example_template :: "(string \<times> ResourceDefinition) list" where
  "example_template =
    [(''A'', \<lparr>props = [(''a'', Literal ''initial'')], depends_on = []\<rparr>),
     (''B'', \<lparr>props = [], depends_on = []\<rparr>),
     (''C'', \<lparr>props = [(''!a'', AttributeRef ''A'' ''a''), (''b'', Literal ''val1'')],
             depends_on = []\<rparr>),
     (''D'', \<lparr>props = [(''c'', ResourceRef ''C'')], depends_on = []\<rparr>),
     (''E'', \<lparr>props = [(''ca'', AttributeRef ''C'' ''!a'')], depends_on = []\<rparr>)]"

definition example_template_updated :: "(string \<times> ResourceDefinition) list" where
  "example_template_updated =
    [(''A'', \<lparr>props = [(''a'', Literal ''updated'')], depends_on = []\<rparr>),
     (''B'', \<lparr>props = [], depends_on = []\<rparr>),
     (''C'', \<lparr>props = [(''!a'', AttributeRef ''A'' ''a''), (''b'', Literal ''val1'')],
             depends_on = []\<rparr>),
     (''D'', \<lparr>props = [(''c'', ResourceRef ''C'')], depends_on = []\<rparr>),
     (''E'', \<lparr>props = [(''ca'', AttributeRef ''C'' ''!a'')], depends_on = []\<rparr>)]"

definition example_template_final :: "(string \<times> ResourceDefinition) list" where
  "example_template_final =
    [(''A'', \<lparr>props = [(''a'', Literal ''initial'')], depends_on = []\<rparr>),
     (''B'', \<lparr>props = [], depends_on = []\<rparr>),
     (''C'', \<lparr>props = [(''!a'', AttributeRef ''A'' ''a''), (''b'', Literal ''val2'')],
             depends_on = []\<rparr>),
     (''D'', \<lparr>props = [(''c'', ResourceRef ''C'')], depends_on = []\<rparr>),
     (''E'', \<lparr>props = [(''ca'', AttributeRef ''C'' ''!a'')], depends_on = []\<rparr>)]"

text \<open>A template whose references form a cycle.\<close>

definition cyclic_template :: "(string \<times> ResourceDefinition) list" where
  "cyclic_template =
    [(''X'', \<lparr>props = [(''y'', ResourceRef ''Y'')], depends_on = []\<rparr>),
     (''Y'', \<lparr>props = [(''x'', AttributeRef ''X'' ''a'')], depends_on = []\<rparr>)]"

text \<open>A collaborator for the scenario: the identity of a resource is made from its name,
  an operation is complete when first polled, and the attributes of a resource are its
  resolved properties (\<open>GetAtt('A', 'a')\<close> reads the property \<open>a\<close> of \<open>A\<close>).\<close>

definition prompt :: collaborator where
  "prompt = \<lparr>create_identity = (\<lambda>t n rp. ''id-'' @ n),
             check_operation_complete = (\<lambda>t n opn. Inr True),
             get_attributes = (\<lambda>t n rp. rp)\<rparr>"

text \<open>The collaborator of the scenario: as \<open>prompt\<close>, but slow at the ticks 6 and 7, where
  no operation is complete yet. With it the scenario script's own numbers of ticks leave
  the update of line 32 partial when the rollback of line 35 arrives.\<close>

definition unhurried :: collaborator where
  "unhurried = \<lparr>create_identity = (\<lambda>t n rp. ''id-'' @ n),
                check_operation_complete = (\<lambda>t n opn. Inr (t \<noteq> 6 \<and> t \<noteq> 7)),
                get_attributes = (\<lambda>t n rp. rp)\<rparr>"

text \<open>A collaborator that reports an error for the operations of one resource.\<close>

definition failing :: "string \<Rightarrow> collaborator" where
  "failing x = \<lparr>create_identity = (\<lambda>t n rp. ''id-'' @ n),
                check_operation_complete =
                  (\<lambda>t n opn. if n = x then Inl ''refused'' else Inr True),
                get_attributes = (\<lambda>t n rp. rp)\<rparr>"

text \<open>Running the operations of the driving interface one after the other; an error ends
  the run.\<close>

definition and_then :: "error + Stack \<Rightarrow> (Stack \<Rightarrow> error + Stack) \<Rightarrow> error + Stack" where
  "and_then r f = (case r of Inl e \<Rightarrow> Inl e | Inr s \<Rightarrow> f s)"

definition ticks :: "collaborator \<Rightarrow> nat \<Rightarrow> Stack \<Rightarrow> error + Stack" where
  "ticks c k s = Inr (advance c k s)"

definition holds_in :: "error + Stack \<Rightarrow> (Stack \<Rightarrow> bool) \<Rightarrow> bool" where
  "holds_in r P = (case r of Inl e \<Rightarrow> False | Inr s \<Rightarrow> P s)"

text \<open>The stages of the scenario script, with its numbers of ticks: created and converged
  (lines 21 to 23); the update of \<open>A.a\<close> under way (lines 32 and 33); rolled back and
  converged (lines 35 to 37); updated to the final template and converged (lines 47 to
  50); deleted (lines 52 to 54).\<close>

definition stage_created :: "error + Stack" where
  "stage_created =
     and_then (create_stack example_template (new_stack ''foo'')) (ticks unhurried 5)"

definition stage_updating :: "error + Stack" where
  "stage_updating =
     and_then (and_then stage_created (update_stack example_template_updated))
       (ticks unhurried 3)"

definition stage_rolled_back :: "error + Stack" where
  "stage_rolled_back =
     and_then (and_then stage_updating rollback_stack) (ticks unhurried 12)"

definition stage_final :: "error + Stack" where
  "stage_final =
     and_then
       (and_then (and_then stage_rolled_back (update_stack example_template_final))
          (ticks unhurried 3))
       (ticks unhurried 4)"

definition stage_deleted :: "error + Stack" where
  "stage_deleted = and_then (and_then stage_final delete_stack) (ticks unhurried 6)"

text \<open>The stack of the scenario right after \<open>create_stack\<close>, and right after a
  \<open>delete_stack\<close> that follows its convergence, against the collaborator \<open>prompt\<close>.\<close>

definition just_created :: Stack where
  "just_created =
     (case create_stack example_template (new_stack ''foo'') of
        Inr s \<Rightarrow> s | Inl e \<Rightarrow> new_stack ''foo'')"

definition being_deleted :: Stack where
  "being_deleted =
     (case delete_stack (advance prompt 4 just_created) of
        Inr s \<Rightarrow> s | Inl e \<Rightarrow> new_stack ''foo'')"

text \<open>The converged stack of the scenario right after an \<open>update_stack\<close> to the template that
  changes \<open>C.b\<close> only, against the collaborator \<open>prompt\<close>.\<close>

definition being_updated :: Stack where
  "being_updated =
     (case update_stack example_template_final (advance prompt 4 just_created) of
        Inr s \<Rightarrow> s | Inl e \<Rightarrow> new_stack ''foo'')"

text \<open>All nodes of a stack are COMPLETE.\<close>

definition all_complete :: "Stack \<Rightarrow> bool" where
  "all_complete s = list_all (\<lambda>(n, nd). state nd = COMPLETE) (nodes s)"

text \<open>A resource has a node in both stacks, and it is the same node in the same condition.\<close>

definition same_node :: "error + Stack \<Rightarrow> error + Stack \<Rightarrow> string \<Rightarrow> bool" where
  "same_node r r' x =
     (case (r, r') of
        (Inr s, Inr s') \<Rightarrow> map_of (nodes s) x \<noteq> None \<and> map_of (nodes s') x = map_of (nodes s) x
      | _ \<Rightarrow> False)"

section \<open>Properties of the TapFlow plug-in\<close>

lemma client_call_apply:
  "client_call c f self =
     (fst (f (backend self)),
      self\<lparr>backend := snd (f (backend self)),
           calls := calls self @ [(c, outcome_of (fst (f (backend self))))]\<rparr>)"
  by (simp add: client_call_def split: prod.splits)

lemmas call_defs = call_create_def call_update_def call_delete_def call_check_status_def

lemmas method_defs = ret_def then_do_def try_except_def

lemmas sample_defs = sample_neutron_def sample_flow_def sample_status_def sample_delete_def
  sample_create_def sample_update_def sample_prepare_properties_def

text \<open>
  C9. A resource without a stored identity (\<open>resource_id\<close> is \<open>None\<close>): \<open>handle_delete\<close>
  returns at once and \<open>check_delete_complete\<close> returns \<open>True\<close>; \<open>self\<close> is returned as it
  was, so no client call was made and the backend is untouched.
\<close>

theorem delete_without_identity:
  "resource_id self = None \<Longrightarrow>
     handle_delete env self = (Inr (), self) \<and>
     check_delete_complete env self = (Inr True, self)"
  by (simp add: handle_delete_def check_delete_complete_def)

theorem delete_without_identity_witness:
  "resource_id (sample_flow None [(''f1'', ''ACTIVE'')]) = None \<and>
   handle_delete sample_neutron (sample_flow None [(''f1'', ''ACTIVE'')])
     = (Inr (), sample_flow None [(''f1'', ''ACTIVE'')]) \<and>
   check_delete_complete sample_neutron (sample_flow None [(''f1'', ''ACTIVE'')])
     = (Inr True, sample_flow None [(''f1'', ''ACTIVE'')])"
proof -
  have h: "resource_id (sample_flow None [(''f1'', ''ACTIVE'')]) = None"
    by (simp add: sample_flow_def)
  from delete_without_identity [OF h, of sample_neutron] h show ?thesis
    by simp
qed

text \<open>
  C7. A resource in an error state when its deletion is polled (the status check raises
  \<open>ResourceInError\<close>): \<open>check_delete_complete\<close> makes exactly two client calls, the status
  check and then a delete request for the resource, and the delete request decides the
  result: \<open>False\<close> when it is accepted, \<open>True\<close> when it raises \<open>NotFound\<close>, its exception
  otherwise.
\<close>

theorem delete_attempted_in_error_state:
  assumes "resource_id self \<noteq> None"
    and "fst (check_taas_resource_status env ''tap_flow'' (resource_id self) (backend self))
           = Inl ResourceInError"
  shows "map fst (new_calls self (snd (check_delete_complete env self))) =
           [Check_taas_resource_status ''tap_flow'' (resource_id self),
            Delete_taas_resource ''tap_flow'' (resource_id self)] \<and>
         fst (check_delete_complete env self) =
           (case fst (delete_taas_resource env ''tap_flow'' (resource_id self)
                        (snd (check_taas_resource_status env ''tap_flow'' (resource_id self)
                                (backend self)))) of
              Inr u \<Rightarrow> Inr False
            | Inl e \<Rightarrow> if e = NotFound then Inr True else Inl e)"
  using assms
  by (auto simp: check_delete_complete_def method_defs call_defs client_call_apply new_calls_def
       split: prod.splits sum.splits if_splits)

theorem delete_attempted_in_error_state_witness:
  "resource_id (sample_flow (Some ''f1'') [(''f1'', ''ERROR'')]) \<noteq> None \<and>
   fst (check_taas_resource_status sample_neutron ''tap_flow''
          (resource_id (sample_flow (Some ''f1'') [(''f1'', ''ERROR'')]))
          (backend (sample_flow (Some ''f1'') [(''f1'', ''ERROR'')]))) = Inl ResourceInError \<and>
   map fst (new_calls (sample_flow (Some ''f1'') [(''f1'', ''ERROR'')])
              (snd (check_delete_complete sample_neutron
                      (sample_flow (Some ''f1'') [(''f1'', ''ERROR'')])))) =
     [Check_taas_resource_status ''tap_flow'' (Some ''f1''),
      Delete_taas_resource ''tap_flow'' (Some ''f1'')] \<and>
   fst (check_delete_complete sample_neutron (sample_flow (Some ''f1'') [(''f1'', ''ERROR'')]))
     = Inr False"
proof -
  let ?self = "sample_flow (Some ''f1'') [(''f1'', ''ERROR'')]"
  have h1: "resource_id ?self \<noteq> None"
    by (simp add: sample_flow_def)
  have h2: "fst (check_taas_resource_status sample_neutron ''tap_flow'' (resource_id ?self)
                   (backend ?self)) = Inl ResourceInError"
    by (simp add: sample_defs)
  from delete_attempted_in_error_state [OF h1 h2] h1 h2 show ?thesis
    by (simp add: sample_defs)
qed

text \<open>
  C6. With a client plug-in whose \<open>ignore_not_found\<close> recognises \<open>NotFound\<close>: neither
  \<open>handle_delete\<close> nor \<open>check_delete_complete\<close> ever raises \<open>NotFound\<close>; whenever one of
  the client calls \<open>handle_delete\<close> makes raises \<open>NotFound\<close> it returns normally, and
  whenever one of the client calls \<open>check_delete_complete\<close> makes raises \<open>NotFound\<close> it
  returns \<open>True\<close> (the delete is complete).
\<close>

theorem delete_not_found_is_success:
  assumes "is_not_found env NotFound"
  shows "fst (handle_delete env self) \<noteq> Inl NotFound \<and>
         fst (check_delete_complete env self) \<noteq> Inl NotFound \<and>
         (list_ex raised_not_found (new_calls self (snd (handle_delete env self)))
            \<longrightarrow> fst (handle_delete env self) = Inr ()) \<and>
         (list_ex raised_not_found (new_calls self (snd (check_delete_complete env self)))
            \<longrightarrow> fst (check_delete_complete env self) = Inr True)"
  using assms
  by (auto simp: handle_delete_def check_delete_complete_def method_defs call_defs
        client_call_apply new_calls_def outcome_of_def raised_not_found_def
      split: prod.splits sum.splits if_splits)

theorem delete_not_found_is_success_witness:
  "is_not_found sample_neutron NotFound \<and>
   list_ex raised_not_found
     (new_calls (sample_flow (Some ''f1'') []) (snd (handle_delete sample_neutron (sample_flow (Some ''f1'') [])))) \<and>
   fst (handle_delete sample_neutron (sample_flow (Some ''f1'') [])) = Inr () \<and>
   list_ex raised_not_found
     (new_calls (sample_flow (Some ''f1'') [])
        (snd (check_delete_complete sample_neutron (sample_flow (Some ''f1'') [])))) \<and>
   fst (check_delete_complete sample_neutron (sample_flow (Some ''f1'') [])) = Inr True"
proof -
  let ?self = "sample_flow (Some ''f1'') []"
  have h: "is_not_found sample_neutron NotFound"
    by (simp add: sample_neutron_def)
  have d: "list_ex raised_not_found (new_calls ?self (snd (handle_delete sample_neutron ?self)))"
    by (simp add: handle_delete_def method_defs call_defs client_call_apply new_calls_def
          outcome_of_def raised_not_found_def sample_defs)
  have c: "list_ex raised_not_found
             (new_calls ?self (snd (check_delete_complete sample_neutron ?self)))"
    by (simp add: check_delete_complete_def method_defs call_defs client_call_apply
          new_calls_def outcome_of_def raised_not_found_def sample_defs)
  from delete_not_found_is_success [OF h, of ?self] h d c show ?thesis
    by simp
qed

text \<open>
  C8, as the claim states it, fails: a poll that issues a delete request returns \<open>True\<close>
  when the request raises \<open>NotFound\<close> (the tap flow went away after the status check).
\<close>

theorem poll_with_delete_request_returns_True:
  "map fst (new_calls racing_flow (snd (check_delete_complete racing_neutron racing_flow))) =
     [Check_taas_resource_status ''tap_flow'' (Some ''f1''),
      Delete_taas_resource ''tap_flow'' (Some ''f1'')] \<and>
   fst (check_delete_complete racing_neutron racing_flow) = Inr True"
  by (simp add: check_delete_complete_def method_defs call_defs client_call_apply
        new_calls_def outcome_of_def racing_neutron_def racing_flow_def)

text \<open>
  C8, amended. \<open>check_delete_complete\<close> returns \<open>True\<close> only when the stored identity is
  \<open>None\<close> or one of its client calls (the status check or a delete request) raised
  \<open>NotFound\<close>; and in every poll in which a delete request is accepted (the call returns
  without raising) it returns \<open>False\<close>.
\<close>

theorem check_delete_complete_True_only_when_gone:
  "(fst (check_delete_complete env self) = Inr True \<longrightarrow>
      resource_id self = None \<or>
      list_ex raised_not_found (new_calls self (snd (check_delete_complete env self)))) \<and>
   ((Delete_taas_resource ''tap_flow'' (resource_id self), Returned)
       \<in> set (new_calls self (snd (check_delete_complete env self)))
      \<longrightarrow> fst (check_delete_complete env self) = Inr False)"
  by (auto simp: check_delete_complete_def method_defs call_defs client_call_apply
        new_calls_def outcome_of_def raised_not_found_def
      split: prod.splits sum.splits if_splits)

theorem check_delete_complete_True_only_when_gone_witness:
  "fst (check_delete_complete sample_neutron (sample_flow (Some ''f1'') [])) = Inr True \<and>
   list_ex raised_not_found
     (new_calls (sample_flow (Some ''f1'') [])
        (snd (check_delete_complete sample_neutron (sample_flow (Some ''f1'') [])))) \<and>
   (Delete_taas_resource ''tap_flow'' (resource_id (sample_flow (Some ''f1'') [(''f1'', ''ACTIVE'')])),
      Returned)
     \<in> set (new_calls (sample_flow (Some ''f1'') [(''f1'', ''ACTIVE'')])
          (snd (check_delete_complete sample_neutron
                  (sample_flow (Some ''f1'') [(''f1'', ''ACTIVE'')])))) \<and>
   fst (check_delete_complete sample_neutron (sample_flow (Some ''f1'') [(''f1'', ''ACTIVE'')]))
     = Inr False"
proof -
  let ?gone = "sample_flow (Some ''f1'') []"
  let ?there = "sample_flow (Some ''f1'') [(''f1'', ''ACTIVE'')]"
  have t: "fst (check_delete_complete sample_neutron ?gone) = Inr True"
    by (simp add: check_delete_complete_def method_defs call_defs client_call_apply
          sample_defs)
  have d: "(Delete_taas_resource ''tap_flow'' (resource_id ?there), Returned)
             \<in> set (new_calls ?there (snd (check_delete_complete sample_neutron ?there)))"
    by (simp add: check_delete_complete_def method_defs call_defs client_call_apply
          new_calls_def outcome_of_def sample_defs)
  from check_delete_complete_True_only_when_gone [of sample_neutron ?gone]
    check_delete_complete_True_only_when_gone [of sample_neutron ?there] t d
  show ?thesis
    by (simp add: sample_flow_def)
qed

text \<open>
  C10. For a resource definition that passes validation against the schema, the value of
  the \<open>direction\<close> property is one of \<open>IN\<close>, \<open>OUT\<close>, \<open>BOTH\<close>, and it is \<open>BOTH\<close> when
  the template does not supply it. \<open>handle_create\<close> makes one client call, the create
  request, whose \<open>direction\<close> field is what \<open>prepare_properties\<close> returns for the
  property: that value itself when \<open>prepare_properties\<close> passes it on.
\<close>

theorem direction_constrained_and_forwarded:
  assumes "validate custom properties_schema (properties self)"
    and "map_of (prepare_properties env (properties_items properties_schema (properties self))
                   (physical_resource_name env)) DIRECTION
           = property_value properties_schema (properties self) DIRECTION"
  shows "property_value properties_schema (properties self) DIRECTION
           \<in> {Some ''IN'', Some ''OUT'', Some ''BOTH''} \<and>
         (map_of (properties self) DIRECTION = None \<longrightarrow>
            property_value properties_schema (properties self) DIRECTION = Some ''BOTH'') \<and>
         (\<exists>body. map fst (new_calls self (snd (handle_create env self)))
                    = [Create_taas_resource ''tap_flow'' body] \<and>
                  map_of body ''direction''
                    = Some (property_value properties_schema (properties self) DIRECTION))"
proof -
  have p: "property_ok custom (properties self)
             (DIRECTION, \<lparr>description = ''The Direction to capture the traffic on.'',
                default = Some ''BOTH'', required = False, update_allowed = False,
                constraints = [AllowedValues [''IN'', ''OUT'', ''BOTH'']]\<rparr>)"
    using assms(1) by (simp add: validate_def properties_schema_def)
  have v: "property_value properties_schema (properties self) DIRECTION
             \<in> {Some ''IN'', Some ''OUT'', Some ''BOTH''}"
    using p
    by (auto simp: property_ok_def property_value_def properties_schema_def NAME_def
          DESCRIPTION_def PORT_def TAP_SERVICE_def DIRECTION_def split: option.splits)
  have d: "map_of (properties self) DIRECTION = None \<longrightarrow>
             property_value properties_schema (properties self) DIRECTION = Some ''BOTH''"
    by (simp add: property_value_def properties_schema_def NAME_def
          DESCRIPTION_def PORT_def TAP_SERVICE_def DIRECTION_def)
  have c: "map fst (new_calls self (snd (handle_create env self)))
             = [Create_taas_resource ''tap_flow''
                  (to_client_of (prepare_properties env
                     (properties_items properties_schema (properties self))
                     (physical_resource_name env)))]"
    by (auto simp: handle_create_def Let_def method_defs call_defs client_call_apply
          new_calls_def dict_item_def resource_id_set_def
        split: prod.splits sum.splits option.splits)
  have f: "map_of (to_client_of (prepare_properties env
                     (properties_items properties_schema (properties self))
                     (physical_resource_name env))) ''direction''
             = Some (property_value properties_schema (properties self) DIRECTION)"
    using assms(2) by (simp add: to_client_of_def)
  let ?body = "to_client_of (prepare_properties env
                 (properties_items properties_schema (properties self))
                 (physical_resource_name env))"
  have e: "\<exists>body. map fst (new_calls self (snd (handle_create env self)))
                    = [Create_taas_resource ''tap_flow'' body] \<and>
                  map_of body ''direction''
                    = Some (property_value properties_schema (properties self) DIRECTION)"
    using c f by (intro exI [of _ ?body]) simp
  from v d e show ?thesis
    by simp
qed

theorem direction_constrained_and_forwarded_witness:
  "validate (\<lambda>name v. True) properties_schema (properties (sample_flow None [])) \<and>
   property_value properties_schema (properties (sample_flow None [])) DIRECTION = Some ''BOTH'' \<and>
   map fst (new_calls (sample_flow None []) (snd (handle_create sample_neutron (sample_flow None []))))
     = [Create_taas_resource ''tap_flow''
          [(''name'', Some ''stack-flow-x1''), (''description'', None),
           (''source_port'', Some ''p1''), (''tap_service_id'', Some ''ts1''),
           (''direction'', Some ''BOTH'')]]"
proof -
  let ?self = "sample_flow None []"
  have h1: "validate (\<lambda>name v. True) properties_schema (properties ?self)"
    by (simp add: validate_def properties_schema_def property_ok_def sample_flow_def NAME_def
          DESCRIPTION_def PORT_def TAP_SERVICE_def DIRECTION_def)
  have h2: "map_of (prepare_properties sample_neutron
                      (properties_items properties_schema (properties ?self))
                      (physical_resource_name sample_neutron)) DIRECTION
              = property_value properties_schema (properties ?self) DIRECTION"
    by (simp add: sample_defs properties_items_def property_value_def properties_schema_def
          NAME_def DESCRIPTION_def PORT_def TAP_SERVICE_def DIRECTION_def)
  have c: "map fst (new_calls ?self (snd (handle_create sample_neutron ?self)))
             = [Create_taas_resource ''tap_flow''
                  [(''name'', Some ''stack-flow-x1''), (''description'', None),
                   (''source_port'', Some ''p1''), (''tap_service_id'', Some ''ts1''),
                   (''direction'', Some ''BOTH'')]]"
    by (simp add: handle_create_def Let_def method_defs call_defs client_call_apply
          new_calls_def dict_item_def resource_id_set_def to_client_of_def
          sample_defs properties_items_def property_value_def properties_schema_def
          NAME_def DESCRIPTION_def PORT_def TAP_SERVICE_def DIRECTION_def)
  from direction_constrained_and_forwarded [OF h1 h2] h1 c show ?thesis
    by (simp add: sample_flow_def)
qed

section \<open>Properties of the convergence core\<close>

subsection \<open>The dependency graph builder\<close>

lemma graph_rel_mono: "set g \<subseteq> set h \<Longrightarrow> graph_rel g \<subseteq> graph_rel h"
  by (auto simp: graph_rel_def)

lemma graph_rel_cong: "set g = set h \<Longrightarrow> graph_rel g = graph_rel h"
  by (auto simp: graph_rel_def)

lemma edge_rel_graph_rel: "edge_rel t = graph_rel (entries t)"
  by (auto simp: edge_rel_def graph_rel_def entries_def)

lemma entries_names: "map fst (entries t) = map fst t"
  by (induction t) (auto simp: entries_def)

lemma entries_iff: "(n, es) \<in> set (entries t) \<longleftrightarrow> (\<exists>d. (n, d) \<in> set t \<and> es = edges_of d)"
  by (auto simp: entries_def)

lemma finite_graph_rel: "finite (graph_rel g)"
proof -
  have "graph_rel g \<subseteq> fst ` set g \<times> (\<Union>e\<in>set g. set (snd e))"
    by (force simp: graph_rel_def)
  moreover have "finite (fst ` set g \<times> (\<Union>e\<in>set g. set (snd e)))"
    by simp
  ultimately show ?thesis
    by (rule finite_subset)
qed

lemma topo_ordered_set_cong:
  "set seen = set seen' \<Longrightarrow> topo_ordered seen g = topo_ordered seen' g"
proof (induction g arbitrary: seen seen')
  case Nil
  then show ?case by simp
next
  case (Cons e g)
  obtain n es where e: "e = (n, es)" by (cases e)
  from Cons.prems have "set (n # seen) = set (n # seen')" by simp
  then have "topo_ordered (n # seen) g = topo_ordered (n # seen') g"
    by (rule Cons.IH)
  with Cons.prems e show ?case by simp
qed

lemma topo_ordered_append:
  "topo_ordered seen (g @ h) =
     (topo_ordered seen g \<and> topo_ordered (rev (map fst g) @ seen) h)"
proof (induction g arbitrary: seen)
  case Nil
  then show ?case by simp
next
  case (Cons e g)
  obtain n es where e: "e = (n, es)" by (cases e)
  from Cons.IH [of "n # seen"] e show ?case by simp
qed

lemma layer_ordered:
  "\<forall>e\<in>set L. set (snd e) \<subseteq> set seen \<Longrightarrow> distinct (map fst L)
     \<Longrightarrow> fst ` set L \<inter> set seen = {} \<Longrightarrow> topo_ordered seen L"
proof (induction L arbitrary: seen)
  case Nil
  then show ?case by simp
next
  case (Cons e L)
  obtain n es where e: "e = (n, es)" by (cases e)
  have "topo_ordered (n # seen) L"
  proof (rule Cons.IH)
    show "\<forall>e\<in>set L. set (snd e) \<subseteq> set (n # seen)"
      using Cons.prems(1) by auto
    show "distinct (map fst L)"
      using Cons.prems(2) by simp
    show "fst ` set L \<inter> set (n # seen) = {}"
      using Cons.prems(2,3) e by auto
  qed
  with Cons.prems e show ?case by auto
qed

lemma topo_sort_sound:
  "topo_sort pending placed = Inr g \<Longrightarrow> topo_ordered [] placed
     \<Longrightarrow> distinct (map fst (pending @ placed))
     \<Longrightarrow> topo_ordered [] g \<and> set g = set pending \<union> set placed"
proof (induction pending placed rule: topo_sort.induct)
  case (1 pending placed)
  show ?case
  proof (cases "pending = []")
    case True
    with "1.prems" show ?thesis
      by (simp add: topo_sort.simps)
  next
    case False
    let ?L = "filter (placeable placed) pending"
    let ?R = "filter (\<lambda>e. \<not> placeable placed e) pending"
    from False "1.prems"(1) have ne: "?L \<noteq> []"
      by (auto simp: topo_sort.simps [of pending placed] split: if_splits)
    with False "1.prems"(1) have rec: "topo_sort ?R (placed @ ?L) = Inr g"
      by (simp add: topo_sort.simps [of pending placed])
    have d: "distinct (map fst pending)" "distinct (map fst placed)"
      "fst ` set pending \<inter> fst ` set placed = {}"
      using "1.prems"(3) by auto
    have "topo_ordered (rev (map fst placed) @ []) ?L"
    proof (rule layer_ordered)
      show "\<forall>e\<in>set ?L. set (snd e) \<subseteq> set (rev (map fst placed) @ [])"
        by (auto simp: placeable_def)
      show "distinct (map fst ?L)"
        using d(1) by (rule distinct_map_filter)
      show "fst ` set ?L \<inter> set (rev (map fst placed) @ []) = {}"
        using d(3) by auto
    qed
    with "1.prems"(2) have o: "topo_ordered [] (placed @ ?L)"
      by (simp add: topo_ordered_append)
    have "fst ` set ?R \<inter> fst ` set ?L = {}"
      using d(1) by (auto dest: eq_key_imp_eq_value)
    with d have "distinct (map fst (?R @ placed @ ?L))"
      by (auto simp: distinct_map_filter)
    with "1.IH" [OF False ne rec o]
    have "topo_ordered [] g \<and> set g = set ?R \<union> set (placed @ ?L)" .
    then show ?thesis by auto
  qed
qed

lemma topo_sort_error:
  "topo_sort pending placed = Inl e \<Longrightarrow> \<exists>ms. e = CyclicDependencyError ms"
proof (induction pending placed rule: topo_sort.induct)
  case (1 pending placed)
  then show ?case
    by (auto simp: topo_sort.simps [of pending placed] split: if_splits)
qed

lemma topo_sort_succeeds:
  "acyclic (graph_rel (pending @ placed))
     \<Longrightarrow> \<forall>e\<in>set pending. set (snd e) \<subseteq> fst ` set (pending @ placed)
     \<Longrightarrow> \<exists>g. topo_sort pending placed = Inr g"
proof (induction pending placed rule: topo_sort.induct)
  case (1 pending placed)
  show ?case
  proof (cases "pending = []")
    case True
    then show ?thesis by (simp add: topo_sort.simps)
  next
    case False
    let ?L = "filter (placeable placed) pending"
    let ?R = "filter (\<lambda>e. \<not> placeable placed e) pending"
    have ne: "?L \<noteq> []"
    proof
      assume empty: "?L = []"
      have "wf ((graph_rel (pending @ placed))\<inverse>)"
        using finite_graph_rel "1.prems"(1) by (rule finite_acyclic_wf_converse)
      moreover from False obtain e0 where "e0 \<in> set pending" by (cases pending) auto
      then have "fst e0 \<in> fst ` set pending" by simp
      ultimately obtain z where z: "z \<in> fst ` set pending"
        and min: "\<And>y. (y, z) \<in> (graph_rel (pending @ placed))\<inverse> \<Longrightarrow> y \<notin> fst ` set pending"
        by (rule wfE_min) blast
      from z obtain es where zes: "(z, es) \<in> set pending" by auto
      with empty have "\<not> placeable placed (z, es)"
        by (auto simp: filter_empty_conv)
      then obtain r where r: "r \<in> set es" "r \<notin> fst ` set placed"
        by (auto simp: placeable_def)
      from zes "1.prems"(2) have "set es \<subseteq> fst ` set (pending @ placed)"
        by (metis snd_conv)
      with r have "r \<in> fst ` set pending" by auto
      moreover from zes r(1) have "(r, z) \<in> (graph_rel (pending @ placed))\<inverse>"
        by (auto simp: graph_rel_def)
      ultimately show False using min by blast
    qed
    have eq: "set (?R @ placed @ ?L) = set (pending @ placed)" by auto
    have "\<exists>g. topo_sort ?R (placed @ ?L) = Inr g"
    proof (rule "1.IH" [OF False ne])
      show "acyclic (graph_rel (?R @ placed @ ?L))"
        using "1.prems"(1) graph_rel_cong [OF eq] by simp
      show "\<forall>e\<in>set ?R. set (snd e) \<subseteq> fst ` set (?R @ placed @ ?L)"
      proof
        fix e assume "e \<in> set ?R"
        then have "e \<in> set pending" by simp
        with "1.prems"(2) have "set (snd e) \<subseteq> fst ` set (pending @ placed)" by blast
        with eq show "set (snd e) \<subseteq> fst ` set (?R @ placed @ ?L)" by simp
      qed
    qed
    with False ne show ?thesis
      by (simp add: topo_sort.simps [of pending placed])
  qed
qed

lemma topo_ordered_edges:
  "topo_ordered seen g \<Longrightarrow> (a, b) \<in> graph_rel g
     \<Longrightarrow> a \<in> fst ` set g \<and> a \<notin> set seen \<and> b \<in> set seen \<union> fst ` set g"
proof (induction g arbitrary: seen)
  case Nil
  then show ?case by (simp add: graph_rel_def)
next
  case (Cons e g)
  obtain n es where e: "e = (n, es)" by (cases e)
  show ?case
  proof (cases "(a, b) \<in> graph_rel g")
    case True
    from Cons.prems(1) e have "topo_ordered (n # seen) g" by simp
    from Cons.IH [OF this True] e show ?thesis by auto
  next
    case False
    with Cons.prems(2) e have "a = n" "b \<in> set es"
      by (auto simp: graph_rel_def)
    with Cons.prems(1) e show ?thesis by auto
  qed
qed

lemma topo_ordered_rank:
  "topo_ordered seen g \<Longrightarrow> \<exists>f :: string \<Rightarrow> nat. \<forall>(a, b)\<in>graph_rel g. f b < f a"
proof (induction g rule: rev_induct)
  case Nil
  then show ?case by (simp add: graph_rel_def)
next
  case (snoc e g)
  obtain n es where e: "e = (n, es)" by (cases e)
  from snoc.prems e have og: "topo_ordered seen g"
    and es: "set es \<subseteq> set seen \<union> fst ` set g" and n: "n \<notin> set seen \<union> fst ` set g"
    by (auto simp: topo_ordered_append)
  from snoc.IH [OF og] obtain f :: "string \<Rightarrow> nat" where f: "\<forall>(a, b)\<in>graph_rel g. f b < f a"
    by blast
  let ?f = "f(n := Suc (sum_list (map f es)))"
  have "\<forall>(a, b)\<in>graph_rel (g @ [e]). ?f b < ?f a"
  proof (clarify)
    fix a b
    assume ab: "(a, b) \<in> graph_rel (g @ [e])"
    show "?f b < ?f a"
    proof (cases "(a, b) \<in> graph_rel g")
      case True
      from topo_ordered_edges [OF og True] n have "a \<noteq> n" "b \<noteq> n" by auto
      with f True show ?thesis by auto
    next
      case False
      with ab e have a: "a = n" and b: "b \<in> set es"
        by (auto simp: graph_rel_def)
      from b es n have "b \<noteq> n" by auto
      moreover from b have "f b \<le> sum_list (map f es)"
        by (simp add: member_le_sum_list)
      ultimately show ?thesis using a by simp
    qed
  qed
  then show ?case by blast
qed

lemma rank_acyclic:
  assumes "\<forall>(a, b)\<in>R. (f b :: nat) < f a"
  shows "acyclic R"
proof -
  have "R\<inverse> \<subseteq> inv_image less_than f"
    using assms by auto
  moreover have "wf (inv_image less_than f)"
    by simp
  ultimately have "wf (R\<inverse>)"
    by (rule wf_subset [rotated])
  then have "acyclic (R\<inverse>)"
    by (rule wf_acyclic)
  then show ?thesis
    by simp
qed

lemma topo_ordered_acyclic: "topo_ordered seen g \<Longrightarrow> acyclic (graph_rel g)"
  using topo_ordered_rank rank_acyclic by blast

lemma topological_order_acyclic:
  "topological_order_of t g \<Longrightarrow> acyclic (edge_rel t)"
  using topo_ordered_acyclic [of "[]" g] graph_rel_cong [of g "entries t"]
  by (simp add: topological_order_of_def edge_rel_graph_rel)

lemma make_template_closed:
  "make_template t = Inr t' \<Longrightarrow> t' = t \<and> (\<forall>(n, d)\<in>set t. set (edges_of d) \<subseteq> fst ` set t)"
  by (auto simp: make_template_def unknown_names_def filter_empty_conv split: list.splits)

lemma build_graph_sound:
  "build_graph t = Inr g \<Longrightarrow> distinct (map fst t) \<Longrightarrow> topological_order_of t g"
proof -
  assume b: "build_graph t = Inr g" and d: "distinct (map fst t)"
  from d have "distinct (map fst (entries t @ []))"
    by (simp only: append_Nil2 entries_names)
  with topo_sort_sound [of "entries t" "[]" g] b
  show ?thesis by (simp add: build_graph_def topological_order_of_def)
qed

lemma entries_closed:
  assumes "make_template t = Inr t"
  shows "\<forall>e\<in>set (entries t). set (snd e) \<subseteq> fst ` set (entries t @ [])"
proof
  fix e assume "e \<in> set (entries t)"
  then obtain n d where nd: "(n, d) \<in> set t" and e: "e = (n, edges_of d)"
    by (auto simp: entries_def)
  from make_template_closed [OF assms] nd have "set (edges_of d) \<subseteq> fst ` set t"
    by blast
  moreover have "fst ` set (entries t) = fst ` set t"
    using entries_names [of t] by (metis list.set_map)
  ultimately show "set (snd e) \<subseteq> fst ` set (entries t @ [])"
    using e by simp
qed

text \<open>
  C2. For every template that is a mapping (no resource name twice) and passes template
  construction (every referenced name exists): if its edges, the explicit dependencies
  and the resources its properties reference, are acyclic, \<open>build_graph\<close> succeeds and
  the graph it returns is a topological order of the template's resources consistent with
  those edges; if the edges form a cycle, \<open>build_graph\<close> fails with
  \<open>CyclicDependencyError\<close>.
\<close>

theorem graph_construction:
  assumes "distinct (map fst t)" and "make_template t = Inr t"
  shows "(acyclic (edge_rel t) \<longrightarrow> (\<exists>g. build_graph t = Inr g \<and> topological_order_of t g)) \<and>
         (\<not> acyclic (edge_rel t) \<longrightarrow> (\<exists>ms. build_graph t = Inl (CyclicDependencyError ms)))"
proof (intro conjI impI)
  assume a: "acyclic (edge_rel t)"
  have "\<exists>g. topo_sort (entries t) [] = Inr g"
  proof (rule topo_sort_succeeds)
    show "acyclic (graph_rel (entries t @ []))"
      using a by (simp add: edge_rel_graph_rel)
    show "\<forall>e\<in>set (entries t). set (snd e) \<subseteq> fst ` set (entries t @ [])"
      using assms(2) by (rule entries_closed)
  qed
  then obtain g where g: "build_graph t = Inr g" by (auto simp: build_graph_def)
  from build_graph_sound [OF g assms(1)] g
  show "\<exists>g. build_graph t = Inr g \<and> topological_order_of t g"
    by blast
next
  assume c: "\<not> acyclic (edge_rel t)"
  show "\<exists>ms. build_graph t = Inl (CyclicDependencyError ms)"
  proof (cases "build_graph t")
    case (Inl e)
    with topo_sort_error [of "entries t" "[]" e] show ?thesis
      by (auto simp: build_graph_def)
  next
    case (Inr g)
    from build_graph_sound [OF Inr assms(1)] have "acyclic (edge_rel t)"
      by (rule topological_order_acyclic)
    with c show ?thesis by simp
  qed
qed

theorem graph_construction_witness:
  "distinct (map fst example_template) \<and>
   make_template example_template = Inr example_template \<and>
   acyclic (edge_rel example_template) \<and>
   build_graph example_template =
     Inr [(''A'', []), (''B'', []), (''C'', [''A'']), (''D'', [''C'']), (''E'', [''C''])] \<and>
   (\<exists>g. build_graph example_template = Inr g \<and> topological_order_of example_template g) \<and>
   distinct (map fst cyclic_template) \<and>
   make_template cyclic_template = Inr cyclic_template \<and>
   \<not> acyclic (edge_rel cyclic_template) \<and>
   (\<exists>ms. build_graph cyclic_template = Inl (CyclicDependencyError ms)) \<and>
   build_graph cyclic_template = Inl (CyclicDependencyError [''X'', ''Y''])"
proof -
  have d1: "distinct (map fst example_template)"
    by (simp add: example_template_def)
  have m1: "make_template example_template = Inr example_template"
    by code_simp
  have b1: "build_graph example_template =
      Inr [(''A'', []), (''B'', []), (''C'', [''A'']), (''D'', [''C'']), (''E'', [''C''])]"
    by code_simp
  have a1: "acyclic (edge_rel example_template)"
    using build_graph_sound [OF b1 d1] by (rule topological_order_acyclic)
  have d2: "distinct (map fst cyclic_template)"
    by (simp add: cyclic_template_def)
  have m2: "make_template cyclic_template = Inr cyclic_template"
    by code_simp
  have b2: "build_graph cyclic_template = Inl (CyclicDependencyError [''X'', ''Y''])"
    by code_simp
  have "(''X'', ''Y'') \<in> edge_rel cyclic_template" "(''Y'', ''X'') \<in> edge_rel cyclic_template"
    by (auto simp: edge_rel_def cyclic_template_def edges_of_def)
  then have "(''X'', ''X'') \<in> (edge_rel cyclic_template)\<^sup>+"
    by (meson trancl.intros)
  then have a2: "\<not> acyclic (edge_rel cyclic_template)"
    by (auto simp: acyclic_def)
  from graph_construction [OF d1 m1] a1
  have e1: "\<exists>g. build_graph example_template = Inr g \<and> topological_order_of example_template g"
    by blast
  from graph_construction [OF d2 m2] a2
  have e2: "\<exists>ms. build_graph cyclic_template = Inl (CyclicDependencyError ms)"
    by blast
  from d1 m1 a1 b1 e1 d2 m2 a2 e2 b2 show ?thesis
    by (intro conjI)
qed

subsection \<open>What the phases of a tick leave alone\<close>

lemma poll_phase_fields [simp]:
  "goal (poll_phase c s) = goal s" "graph (poll_phase c s) = graph s"
  "dispatched (poll_phase c s) = dispatched s" "in_flight (poll_phase c s) = in_flight s"
  "clock (poll_phase c s) = clock s" "current (poll_phase c s) = current s"
  "action (poll_phase c s) = action s" "status (poll_phase c s) = status s"
  by (simp_all add: poll_phase_def)

lemma propagate_fields [simp]:
  "goal (propagate s) = goal s" "graph (propagate s) = graph s"
  "dispatched (propagate s) = dispatched s" "in_flight (propagate s) = in_flight s"
  "clock (propagate s) = clock s" "current (propagate s) = current s"
  "action (propagate s) = action s" "status (propagate s) = status s"
  by (simp_all add: propagate_def)

lemma promote_fields [simp]:
  "goal (promote s) = goal s" "graph (promote s) = graph s"
  "dispatched (promote s) = dispatched s" "in_flight (promote s) = in_flight s"
  "clock (promote s) = clock s" "current (promote s) = current s"
  "action (promote s) = action s" "status (promote s) = status s"
  by (simp_all add: promote_def)

lemma dispatch_phase_fields [simp]:
  "goal (dispatch_phase c s) = goal s" "graph (dispatch_phase c s) = graph s"
  "in_flight (dispatch_phase c s) = in_flight s"
  "clock (dispatch_phase c s) = clock s" "current (dispatch_phase c s) = current s"
  "action (dispatch_phase c s) = action s" "status (dispatch_phase c s) = status s"
  by (simp_all add: dispatch_phase_def Let_def)

lemma finish_fields [simp]:
  "goal (finish s) = goal s" "graph (finish s) = graph s"
  "dispatched (finish s) = dispatched s" "nodes (finish s) = nodes s"
  "clock (finish s) = clock s" "action (finish s) = action s"
  by (simp_all add: finish_def)

lemma at_dispatch_fields [simp]:
  "goal (at_dispatch c s) = goal s" "graph (at_dispatch c s) = graph s"
  "dispatched (at_dispatch c s) = dispatched s"
  by (simp_all add: at_dispatch_def)

lemma dispatch_phase_nodes:
  "nodes (dispatch_phase c s) = map (dispatch_node c (promote s)) (nodes (promote s))"
  by (simp add: dispatch_phase_def Let_def)

lemma dispatch_phase_dispatched:
  "dispatched (dispatch_phase c s) =
     dispatched s @ concat (map (dispatch_event c (promote s)) (nodes (promote s)))"
  by (simp add: dispatch_phase_def Let_def)

lemma tick_dispatched:
  "dispatched (tick c s) =
     (if in_flight s
      then dispatched s @ concat (map (dispatch_event c (at_dispatch c s)) (nodes (at_dispatch c s)))
      else dispatched s)"
  by (simp add: tick_def dispatch_phase_dispatched at_dispatch_def)

lemma dispatched_by_tick_eq:
  "dispatched_by_tick c s =
     (if in_flight s
      then concat (map (dispatch_event c (at_dispatch c s)) (nodes (at_dispatch c s)))
      else [])"
  by (simp add: dispatched_by_tick_def tick_dispatched)

subsection \<open>No node is READY between ticks\<close>

lemma poll_node_no_ready:
  "state (snd e) \<noteq> READY \<Longrightarrow> e' \<in> set (poll_node c s e) \<Longrightarrow> state (snd e') \<noteq> READY"
  by (cases e) (auto simp: poll_node_def split: if_splits sum.splits bool.splits)

lemma poll_phase_no_ready: "no_ready (nodes s) \<Longrightarrow> no_ready (nodes (poll_phase c s))"
  by (auto simp: no_ready_def poll_phase_def dest: poll_node_no_ready)

lemma update_node_fail_no_ready:
  "no_ready ns \<Longrightarrow> no_ready (update_node n (fail_dependent d) ns)"
  by (auto simp: no_ready_def update_node_def fail_dependent_def split: if_splits)

lemma propagate_failure_no_ready:
  "no_ready ns \<Longrightarrow> no_ready (propagate_failure g ns)"
proof (induction g arbitrary: ns)
  case Nil
  then show ?case by simp
next
  case (Cons e g)
  obtain n es where e: "e = (n, es)" by (cases e)
  show ?case
  proof (cases "find (\<lambda>d. state_of ns d = Some FAILED) es")
    case None
    with Cons e show ?thesis by simp
  next
    case (Some d)
    from Cons.prems have "no_ready (update_node n (fail_dependent d) ns)"
      by (rule update_node_fail_no_ready)
    then have "no_ready (propagate_failure g (update_node n (fail_dependent d) ns))"
      by (rule Cons.IH)
    with Some e show ?thesis by simp
  qed
qed

lemma propagate_no_ready: "no_ready (nodes s) \<Longrightarrow> no_ready (nodes (propagate s))"
  by (simp add: propagate_def propagate_failure_no_ready)

lemma dispatch_node_no_ready: "state (snd (dispatch_node c r e)) \<noteq> READY"
  by (cases e) (auto simp: dispatch_node_def split: option.splits sum.splits)

lemma dispatch_phase_no_ready: "no_ready (nodes (dispatch_phase c s))"
  by (auto simp: no_ready_def dispatch_phase_nodes dispatch_node_no_ready)

lemma tick_no_ready: "no_ready (nodes s) \<Longrightarrow> no_ready (nodes (tick c s))"
  by (simp add: tick_def propagate_no_ready dispatch_phase_no_ready)

lemma add_nodes_no_ready:
  "no_ready ns \<Longrightarrow> no_ready (fst (add_nodes names i ns))"
proof (induction names arbitrary: i ns)
  case Nil
  then show ?case by simp
next
  case (Cons n names)
  have "no_ready (ns @ [(n, new_node i)])"
    using Cons.prems by (auto simp: no_ready_def new_node_def)
  with Cons show ?case by simp
qed

lemma rebuild_no_ready: "no_ready (map (rebuild_node t) ns)"
  by (auto simp: no_ready_def rebuild_node_def split: node_state.splits if_splits)

lemma begin_traversal_nodes:
  "nodes (begin_traversal a t g s) = fst (add_nodes (map fst t) (next_id s) (map (rebuild_node t) (nodes s)))"
  by (simp add: begin_traversal_def split: prod.splits)

lemma begin_traversal_no_ready: "no_ready (nodes (begin_traversal a t g s))"
  by (simp add: begin_traversal_nodes add_nodes_no_ready rebuild_no_ready)

lemma start_no_ready: "start a rs s = Inr s' \<Longrightarrow> no_ready (nodes s')"
  by (auto simp: start_def begin_traversal_no_ready split: sum.splits)

lemma reachable_no_ready: "reachable c s \<Longrightarrow> no_ready (nodes s)"
proof (induction rule: reachable.induct)
  case (reach_new nm)
  show ?case by (simp add: no_ready_def new_stack_def)
next
  case (reach_tick s)
  then show ?case by (simp add: tick_no_ready)
next
  case (reach_create s rs s')
  then show ?case by (auto simp: create_stack_def start_no_ready split: if_splits)
next
  case (reach_update s rs s')
  then show ?case by (auto simp: update_stack_def start_no_ready split: if_splits)
next
  case (reach_rollback s s')
  then show ?case
    by (auto simp: rollback_stack_def start_no_ready split: if_splits option.splits)
next
  case (reach_delete s s')
  then show ?case by (auto simp: delete_stack_def start_no_ready split: if_splits)
qed

subsection \<open>The guard of a dispatch\<close>

lemma settled_complete:
  "x \<in> set (settled ns g acc) \<Longrightarrow> x \<in> set acc \<or> state_of ns x = Some COMPLETE"
proof (induction g arbitrary: acc)
  case Nil
  then show ?case by simp
next
  case (Cons e g)
  obtain n es where e: "e = (n, es)" by (cases e)
  show ?case
  proof (cases "state_of ns n = Some COMPLETE \<and> set es \<subseteq> set acc")
    case True
    with Cons.prems e have "x \<in> set (settled ns g (n # acc))" by simp
    from Cons.IH [OF this] True show ?thesis by auto
  next
    case False
    with Cons.prems e have "x \<in> set (settled ns g acc)" by auto
    from Cons.IH [OF this] show ?thesis .
  qed
qed

lemma map_of_map_entry:
  "map_of (map (\<lambda>(k, v). (k, f k v)) xs) x = map_option (f x) (map_of xs x)"
  by (induction xs) auto

lemma promote_nodes:
  "nodes (promote s) =
     map (\<lambda>(n, nd). (n, if state nd = PENDING \<and> ready s n then nd\<lparr>state := READY\<rparr> else nd))
       (nodes s)"
  by (simp add: promote_def split_def if_distrib [of "Pair _"] cong: if_cong)

lemma promote_ready:
  assumes "no_ready (nodes s)" and "(n, nd) \<in> set (nodes (promote s))" and "state nd = READY"
  shows "ready s n"
  using assms by (auto simp: promote_nodes no_ready_def split: if_splits)

lemma promote_map_of:
  "map_of (nodes (promote s)) x =
     map_option (\<lambda>nd. if state nd = PENDING \<and> ready s x then nd\<lparr>state := READY\<rparr> else nd)
       (map_of (nodes s) x)"
  by (simp add: promote_nodes map_of_map_entry)

lemma promote_complete:
  "state_of (nodes s) x = Some COMPLETE \<Longrightarrow> state_of (nodes (promote s)) x = Some COMPLETE"
  by (cases "map_of (nodes s) x") (simp_all add: state_of_def promote_map_of)

lemma promote_uses:
  "(m, nd) \<in> set (nodes (promote s)) \<Longrightarrow> \<exists>nd0. (m, nd0) \<in> set (nodes s) \<and> uses nd n = uses nd0 n"
  by (auto simp: promote_nodes uses_def split: if_splits)

lemma dispatch_event_cases:
  assumes "(n, opn) \<in> set (dispatch_event c r e)"
  shows "fst e = n \<and> state (snd e) = READY \<and>
         (case map_of (goal r) n of None \<Rightarrow> opn = Delete | Some d \<Rightarrow> opn \<noteq> Delete)"
  using assms
  by (cases e)
     (auto simp: dispatch_event_def dispatch_node_def split: if_splits option.splits sum.splits)

text \<open>
  C3. In every reachable state of a stack, for every operation a tick dispatches: if it is
  a create or an update of a resource, every dependency node of the resource (every
  resource its goal definition names) is COMPLETE in the state in which the tick
  dispatches; if it is a delete, the resource is absent from the goal and no other node
  that exists in that state depends on it, so that deletes proceed in reverse dependency
  order.
\<close>

theorem dispatch_order:
  assumes "reachable c s" and "(n, opn) \<in> set (dispatched_by_tick c s)"
  shows "(opn \<noteq> Delete \<longrightarrow>
           (\<exists>d. map_of (goal s) n = Some d \<and>
                (\<forall>x\<in>set (edges_of d). state_of (nodes (at_dispatch c s)) x = Some COMPLETE))) \<and>
         (opn = Delete \<longrightarrow>
           map_of (goal s) n = None \<and>
           (\<forall>(m, nd)\<in>set (nodes (at_dispatch c s)). m \<noteq> n \<longrightarrow> \<not> uses nd n))"
proof -
  let ?p = "propagate (poll_phase c s)"
  let ?r = "at_dispatch c s"
  have r: "?r = promote ?p" by (simp add: at_dispatch_def)
  from assms(2) obtain e where e: "e \<in> set (nodes ?r)" and ev: "(n, opn) \<in> set (dispatch_event c ?r e)"
    by (auto simp: dispatched_by_tick_eq split: if_splits)
  from dispatch_event_cases [OF ev] have fe: "fst e = n" and st: "state (snd e) = READY"
    and op: "case map_of (goal s) n of None \<Rightarrow> opn = Delete | Some d \<Rightarrow> opn \<noteq> Delete"
    by simp_all
  from reachable_no_ready [OF assms(1)] have "no_ready (nodes ?p)"
    by (simp add: poll_phase_no_ready propagate_no_ready)
  moreover from e fe have "(n, snd e) \<in> set (nodes (promote ?p))"
    using r by (metis prod.collapse)
  ultimately have rd: "ready ?p n" using st by (rule promote_ready)
  show ?thesis
  proof (cases "map_of (goal s) n")
    case None
    with op have del: "opn = Delete" by simp
    from rd None have all: "list_all (\<lambda>(m, nd). m = n \<or> \<not> uses nd n) (nodes ?p)"
      by (simp add: ready_def)
    have "\<forall>(m, nd)\<in>set (nodes ?r). m \<noteq> n \<longrightarrow> \<not> uses nd n"
    proof (clarify)
      fix m nd assume mn: "(m, nd) \<in> set (nodes ?r)" and ne: "m \<noteq> n" and u: "uses nd n"
      from mn r promote_uses [of m nd ?p n] obtain nd0
        where "(m, nd0) \<in> set (nodes ?p)" "uses nd n = uses nd0 n" by auto
      with all ne u show False by (auto simp: list_all_iff)
    qed
    with None del show ?thesis by simp
  next
    case (Some d)
    with op have nd: "opn \<noteq> Delete" by simp
    from rd Some have sub: "set (edges_of d) \<subseteq> set (settled (nodes ?p) (graph ?p) [])"
      by (simp add: ready_def)
    have "\<forall>x\<in>set (edges_of d). state_of (nodes ?r) x = Some COMPLETE"
    proof
      fix x assume "x \<in> set (edges_of d)"
      with sub have "x \<in> set (settled (nodes ?p) (graph ?p) [])" by blast
      from settled_complete [OF this] have "state_of (nodes ?p) x = Some COMPLETE" by simp
      then show "state_of (nodes ?r) x = Some COMPLETE"
        unfolding r by (rule promote_complete)
    qed
    with Some nd show ?thesis by simp
  qed
qed

lemma reachable_advance: "reachable c s \<Longrightarrow> reachable c (advance c k s)"
  by (induction k arbitrary: s) (auto intro: reach_tick)

lemma reachable_just_created: "reachable prompt just_created"
proof -
  have c: "create_stack example_template (new_stack ''foo'') = Inr just_created"
    by code_simp
  have d: "distinct (map fst example_template)"
    by (simp add: example_template_def)
  show ?thesis
    by (rule reach_create [OF reach_new d c])
qed

lemma reachable_being_deleted: "reachable prompt being_deleted"
proof -
  have d: "delete_stack (advance prompt 4 just_created) = Inr being_deleted"
    by code_simp
  show ?thesis
    by (rule reach_delete [OF reachable_advance [OF reachable_just_created] d])
qed

theorem dispatch_order_witness:
  "reachable prompt (advance prompt 1 just_created) \<and>
   (''C'', Create) \<in> set (dispatched_by_tick prompt (advance prompt 1 just_created)) \<and>
   state_of (nodes (at_dispatch prompt (advance prompt 1 just_created))) ''A'' = Some COMPLETE \<and>
   reachable prompt (advance prompt 1 being_deleted) \<and>
   (''C'', Delete) \<in> set (dispatched_by_tick prompt (advance prompt 1 being_deleted)) \<and>
   map fst (nodes (at_dispatch prompt (advance prompt 1 being_deleted))) = [''A'', ''C''] \<and>
   list_all (\<lambda>(m, nd). m = ''C'' \<or> \<not> uses nd ''C'')
     (nodes (at_dispatch prompt (advance prompt 1 being_deleted)))"
proof -
  let ?s = "advance prompt 1 just_created"
  let ?t = "advance prompt 1 being_deleted"
  have r1: "reachable prompt ?s"
    using reachable_just_created by (rule reachable_advance)
  have r2: "reachable prompt ?t"
    using reachable_being_deleted by (rule reachable_advance)
  have m1: "(''C'', Create) \<in> set (dispatched_by_tick prompt ?s)"
    by code_simp
  have m2: "(''C'', Delete) \<in> set (dispatched_by_tick prompt ?t)"
    by code_simp
  have g: "map_of (goal ?s) ''C'' =
      Some \<lparr>props = [(''!a'', AttributeRef ''A'' ''a''), (''b'', Literal ''val1'')],
            depends_on = []\<rparr>"
    by code_simp
  have n: "map fst (nodes (at_dispatch prompt ?t)) = [''A'', ''C'']"
    by code_simp
  from dispatch_order [OF r1 m1] g
  have "\<forall>x\<in>set (edges_of \<lparr>props = [(''!a'', AttributeRef ''A'' ''a''), (''b'', Literal ''val1'')],
            depends_on = []\<rparr>). state_of (nodes (at_dispatch prompt ?s)) x = Some COMPLETE"
    by auto
  then have a: "state_of (nodes (at_dispatch prompt ?s)) ''A'' = Some COMPLETE"
    by (simp add: edges_of_def)
  from dispatch_order [OF r2 m2]
  have "\<forall>(m, nd)\<in>set (nodes (at_dispatch prompt ?t)). m \<noteq> ''C'' \<longrightarrow> \<not> uses nd ''C''"
    by simp
  then have u: "list_all (\<lambda>(m, nd). m = ''C'' \<or> \<not> uses nd ''C'') (nodes (at_dispatch prompt ?t))"
    by (auto simp: list_all_iff)
  from r1 m1 a r2 m2 n u show ?thesis
    by (intro conjI)
qed

subsection \<open>The node table through the phases\<close>

lemma update_node_map_of:
  "map_of (update_node n f ns) x = (if x = n then map_option f (map_of ns x) else map_of ns x)"
  by (induction ns) (auto simp: update_node_def)

lemma update_node_names [simp]: "map fst (update_node n f ns) = map fst ns"
  by (induction ns) (auto simp: update_node_def)

lemma propagate_failure_names [simp]: "map fst (propagate_failure g ns) = map fst ns"
proof (induction g arbitrary: ns)
  case Nil
  then show ?case by simp
next
  case (Cons e g)
  obtain n es where e: "e = (n, es)" by (cases e)
  with Cons show ?case by (simp split: option.splits)
qed

lemma promote_names [simp]: "map fst (nodes (promote s)) = map fst (nodes s)"
  by (simp add: promote_nodes split_def comp_def)

lemma dispatch_node_fst [simp]: "fst (dispatch_node c r e) = fst e"
  by (cases e) (simp add: dispatch_node_def split: option.splits sum.splits)

lemma dispatch_node_entry:
  "dispatch_node c r e = (fst e, snd (dispatch_node c r e))"
  by (metis dispatch_node_fst prod.collapse)

lemma dispatch_phase_names [simp]:
  "map fst (nodes (dispatch_phase c s)) = map fst (nodes s)"
proof -
  have "fst \<circ> dispatch_node c (promote s) = fst"
    by (rule ext) simp
  then show ?thesis
    using promote_names [of s] by (simp add: dispatch_phase_nodes)
qed

lemma dispatch_map_of:
  "map_of (map (dispatch_node c r) ns) x =
     map_option (\<lambda>nd. snd (dispatch_node c r (x, nd))) (map_of ns x)"
proof (induction ns)
  case Nil
  then show ?case by simp
next
  case (Cons e ns)
  obtain k v where e: "e = (k, v)" by (cases e)
  have "dispatch_node c r (k, v) = (k, snd (dispatch_node c r (k, v)))"
    using dispatch_node_entry [of c r "(k, v)"] by simp
  with Cons e show ?case by auto
qed

lemma poll_node_key: "e' \<in> set (poll_node c s e) \<Longrightarrow> fst e' = fst e"
  by (cases e) (auto simp: poll_node_def split: if_splits sum.splits bool.splits)

lemma poll_node_short: "poll_node c s e = [] \<or> (\<exists>nd'. poll_node c s e = [(fst e, nd')])"
  by (cases e) (auto simp: poll_node_def split: if_splits sum.splits bool.splits)

lemma poll_names:
  "map fst (concat (map (poll_node c s) ns)) = map fst (filter (\<lambda>e. poll_node c s e \<noteq> []) ns)"
proof (induction ns)
  case Nil
  then show ?case by simp
next
  case (Cons e ns)
  from poll_node_short [of c s e] Cons show ?case by auto
qed

lemma poll_phase_distinct:
  "distinct (map fst (nodes s)) \<Longrightarrow> distinct (map fst (nodes (poll_phase c s)))"
  by (simp add: poll_phase_def poll_names distinct_map_filter)

lemma poll_map_of_other:
  "map_of ns x = Some nd \<Longrightarrow> state nd \<noteq> IN_PROGRESS
     \<Longrightarrow> map_of (concat (map (poll_node c s) ns)) x = Some nd"
proof (induction ns)
  case Nil
  then show ?case by simp
next
  case (Cons e ns)
  obtain k v where e: "e = (k, v)" by (cases e)
  show ?case
  proof (cases "k = x")
    case True
    with Cons.prems e have "v = nd" by simp
    with Cons.prems(2) have "poll_node c s (k, v) = [(k, nd)]"
      by (simp add: poll_node_def)
    with True e show ?thesis by simp
  next
    case False
    with Cons.prems e have "map_of ns x = Some nd" by simp
    from Cons.IH [OF this Cons.prems(2)] have ih: "map_of (concat (map (poll_node c s) ns)) x = Some nd" .
    from poll_node_short [of c s e] False e ih show ?thesis by auto
  qed
qed

lemma poll_map_of_none:
  "map_of ns x = None \<Longrightarrow> map_of (concat (map (poll_node c s) ns)) x = None"
proof (induction ns)
  case Nil
  then show ?case by simp
next
  case (Cons e ns)
  obtain k v where e: "e = (k, v)" by (cases e)
  from Cons.prems e have kx: "k \<noteq> x" and "map_of ns x = None" by (auto split: if_splits)
  from Cons.IH [OF this(2)] have ih: "map_of (concat (map (poll_node c s) ns)) x = None" .
  from poll_node_short [of c s e] kx e ih show ?case by auto
qed

lemma poll_map_of:
  "distinct (map fst ns) \<Longrightarrow> map_of ns x = Some nd
     \<Longrightarrow> map_of (concat (map (poll_node c s) ns)) x =
           (case poll_node c s (x, nd) of [] \<Rightarrow> None | e # rest \<Rightarrow> Some (snd e))"
proof (induction ns)
  case Nil
  then show ?case by simp
next
  case (Cons e ns)
  obtain k v where e: "e = (k, v)" by (cases e)
  show ?case
  proof (cases "k = x")
    case True
    with Cons.prems e have v: "v = nd" and "x \<notin> fst ` set ns" by auto
    then have "map_of ns x = None" by (simp add: map_of_eq_None_iff)
    then have none: "map_of (concat (map (poll_node c s) ns)) x = None"
      by (rule poll_map_of_none)
    from poll_node_short [of c s "(x, nd)"] none True e v show ?thesis by auto
  next
    case False
    with Cons.prems e have "map_of ns x = Some nd" "distinct (map fst ns)" by simp_all
    from Cons.IH [OF this(2,1)] poll_node_short [of c s e] False e show ?thesis by auto
  qed
qed

lemma map_of_None_names: "(map_of ns x = None) = (x \<notin> set (map fst ns))"
  by (simp add: map_of_eq_None_iff)

lemma propagate_failure_none:
  assumes "map_of ns x = None"
  shows "map_of (propagate_failure g ns) x = None"
proof -
  from assms have "x \<notin> set (map fst ns)"
    by (simp add: map_of_None_names)
  then have "x \<notin> set (map fst (propagate_failure g ns))"
    by simp
  then show ?thesis
    unfolding map_of_None_names .
qed

lemma propagate_failure_some:
  "map_of ns x = Some nd \<Longrightarrow>
     \<exists>nd'. map_of (propagate_failure g ns) x = Some nd' \<and>
       (nd' = nd \<or>
        (state nd \<noteq> FAILED \<and>
         (\<exists>d. nd' = nd\<lparr>state := FAILED, failure := Some (DependencyFailedError d)\<rparr>)))"
proof (induction g arbitrary: ns nd)
  case Nil
  then show ?case by simp
next
  case (Cons e g)
  obtain n es where e: "e = (n, es)" by (cases e)
  show ?case
  proof (cases "find (\<lambda>d. state_of ns d = Some FAILED) es")
    case None
    with Cons e show ?thesis by simp
  next
    case (Some d)
    let ?ns = "update_node n (fail_dependent d) ns"
    have step: "propagate_failure (e # g) ns = propagate_failure g ?ns"
      using Some e by simp
    show ?thesis
    proof (cases "x = n \<and> state nd \<noteq> FAILED")
      case True
      let ?nd = "nd\<lparr>state := FAILED, failure := Some (DependencyFailedError d)\<rparr>"
      from True Cons.prems have "map_of ?ns x = Some ?nd"
        by (simp add: update_node_map_of fail_dependent_def)
      from Cons.IH [OF this] have "map_of (propagate_failure g ?ns) x = Some ?nd"
        by auto
      with step True show ?thesis by auto
    next
      case False
      with Cons.prems have "map_of ?ns x = Some nd"
        by (auto simp: update_node_map_of fail_dependent_def)
      from Cons.IH [OF this] step show ?thesis by simp
    qed
  qed
qed

lemma propagate_failure_failed_kept:
  "map_of ns x = Some nd \<Longrightarrow> state nd = FAILED \<Longrightarrow> map_of (propagate_failure g ns) x = Some nd"
  using propagate_failure_some [of ns x nd g] by auto

lemma propagate_failure_closed:
  assumes "\<forall>(n, es)\<in>set g. n \<in> D \<longrightarrow> set es \<subseteq> D"
    and "\<forall>x\<in>D. state_of ns x \<noteq> Some FAILED"
  shows "\<forall>x\<in>D. map_of (propagate_failure g ns) x = map_of ns x"
  using assms
proof (induction g arbitrary: ns)
  case Nil
  then show ?case by simp
next
  case (Cons e g)
  obtain n es where e: "e = (n, es)" by (cases e)
  from Cons.prems(1) have cl: "\<forall>(n, es)\<in>set g. n \<in> D \<longrightarrow> set es \<subseteq> D" by simp
  show ?case
  proof (cases "find (\<lambda>d. state_of ns d = Some FAILED) es")
    case None
    with Cons.IH [OF cl Cons.prems(2)] e show ?thesis by simp
  next
    case (Some d)
    let ?ns = "update_node n (fail_dependent d) ns"
    from Some have d: "d \<in> set es" "state_of ns d = Some FAILED"
      by (auto simp: find_Some_iff)
    have "n \<notin> D"
    proof
      assume "n \<in> D"
      with Cons.prems(1) e have "set es \<subseteq> D" by auto
      with d Cons.prems(2) show False by blast
    qed
    then have same: "\<forall>x\<in>D. map_of ?ns x = map_of ns x"
      by (auto simp: update_node_map_of)
    with Cons.prems(2) have "\<forall>x\<in>D. state_of ?ns x \<noteq> Some FAILED"
      by (simp add: state_of_def)
    from Cons.IH [OF cl this] same Some e show ?thesis by simp
  qed
qed

subsection \<open>Resource names are keys of the node arena\<close>

lemma propagate_names [simp]: "map fst (nodes (propagate s)) = map fst (nodes s)"
  by (simp add: propagate_def)

lemma tick_distinct:
  "distinct (map fst (nodes s)) \<Longrightarrow> distinct (map fst (nodes (tick c s)))"
  by (simp add: tick_def poll_phase_distinct)

lemma rebuild_names [simp]: "map fst (map (rebuild_node t) ns) = map fst ns"
  by (induction ns) (auto simp: rebuild_node_def)

lemma add_nodes_distinct:
  "distinct (map fst ns) \<Longrightarrow> distinct (map fst (fst (add_nodes names i ns)))"
  by (induction names i ns rule: add_nodes.induct) auto

lemma begin_traversal_distinct:
  assumes "distinct (map fst (nodes s))"
  shows "distinct (map fst (nodes (begin_traversal a t g s)))"
proof -
  from assms have "distinct (map fst (map (rebuild_node t) (nodes s)))"
    by (simp only: rebuild_names)
  then show ?thesis
    unfolding begin_traversal_nodes by (rule add_nodes_distinct)
qed

lemma start_cases:
  assumes "start a rs s = Inr s'"
  obtains g where "make_template rs = Inr rs" and "build_graph rs = Inr g"
    and "s' = begin_traversal a rs g s"
  using assms make_template_closed [of rs]
  by (auto simp: start_def split: sum.splits)

lemma start_distinct:
  "start a rs s = Inr s' \<Longrightarrow> distinct (map fst (nodes s)) \<Longrightarrow> distinct (map fst (nodes s'))"
  by (erule start_cases) (simp add: begin_traversal_distinct)

lemma reachable_distinct: "reachable c s \<Longrightarrow> distinct (map fst (nodes s))"
proof (induction rule: reachable.induct)
  case (reach_new nm)
  show ?case by (simp add: new_stack_def)
next
  case (reach_tick s)
  from reach_tick.IH show ?case by (rule tick_distinct)
next
  case (reach_create s rs s')
  from reach_create.hyps(3) have "start CREATE rs (s\<lparr>nodes := []\<rparr>) = Inr s'"
    by (simp add: create_stack_def split: if_splits)
  then show ?case by (rule start_distinct) simp
next
  case (reach_update s rs s')
  from reach_update.hyps(3) have "start UPDATE rs s = Inr s'"
    by (simp add: update_stack_def split: if_splits)
  then show ?case using reach_update.IH by (rule start_distinct)
next
  case (reach_rollback s s')
  from reach_rollback.hyps(2) obtain t where "start UPDATE t s = Inr s'"
    by (auto simp: rollback_stack_def split: if_splits option.splits)
  then show ?case using reach_rollback.IH by (rule start_distinct)
next
  case (reach_delete s s')
  from reach_delete.hyps(2) have "s' = s \<or> start DELETE [] s = Inr s'"
    by (auto simp: delete_stack_def split: if_splits)
  then show ?case using reach_delete.IH by (auto intro: start_distinct)
qed

subsection \<open>A COMPLETE node has the goal's definition\<close>

lemma poll_node_complete:
  "e' \<in> set (poll_node c s e) \<Longrightarrow> state (snd e') = COMPLETE
     \<Longrightarrow> (e' = e \<and> state (snd e) = COMPLETE) \<or> at_goal (goal s) (fst e') (snd e')"
  by (cases e)
     (auto simp: poll_node_def at_goal_def split: if_splits sum.splits bool.splits)

lemma update_node_fail_entries:
  "e' \<in> set (update_node n (fail_dependent d) ns) \<Longrightarrow> e' \<in> set ns \<or> state (snd e') = FAILED"
  by (auto simp: update_node_def fail_dependent_def split: if_splits)

lemma propagate_failure_entries:
  "e' \<in> set (propagate_failure g ns) \<Longrightarrow> e' \<in> set ns \<or> state (snd e') = FAILED"
proof (induction g arbitrary: ns)
  case Nil
  then show ?case by simp
next
  case (Cons e g)
  obtain n es where e: "e = (n, es)" by (cases e)
  show ?case
  proof (cases "find (\<lambda>d. state_of ns d = Some FAILED) es")
    case None
    with Cons e show ?thesis by simp
  next
    case (Some d)
    with Cons.prems e have "e' \<in> set (propagate_failure g (update_node n (fail_dependent d) ns))"
      by simp
    from Cons.IH [OF this] update_node_fail_entries [of e' n d ns] show ?thesis by auto
  qed
qed

lemma promote_entries:
  "e' \<in> set (nodes (promote s)) \<Longrightarrow> e' \<in> set (nodes s) \<or> state (snd e') = READY"
  by (auto simp: promote_nodes split: if_splits)

lemma dispatch_node_complete:
  "state (snd (dispatch_node c r e)) = COMPLETE \<Longrightarrow> dispatch_node c r e = e"
  by (cases e) (auto simp: dispatch_node_def split: if_splits option.splits sum.splits)

lemma dispatch_phase_entries:
  "e' \<in> set (nodes (dispatch_phase c s)) \<Longrightarrow> state (snd e') = COMPLETE \<Longrightarrow> e' \<in> set (nodes s)"
proof -
  assume a: "e' \<in> set (nodes (dispatch_phase c s))" and st: "state (snd e') = COMPLETE"
  from a obtain e where e: "e \<in> set (nodes (promote s))" and e': "e' = dispatch_node c (promote s) e"
    by (auto simp: dispatch_phase_nodes)
  from st e' have "e' = e" using dispatch_node_complete [of c "promote s" e] by simp
  with e st promote_entries [of e s] show ?thesis by auto
qed

lemma tick_complete_at_goal:
  assumes "complete_at_goal s"
  shows "complete_at_goal (tick c s)"
proof (cases "in_flight s")
  case False
  with assms show ?thesis by (simp add: tick_def complete_at_goal_def)
next
  case True
  have 1: "complete_at_goal (poll_phase c s)"
    unfolding complete_at_goal_def
  proof (intro ballI impI)
    fix e' assume "e' \<in> set (nodes (poll_phase c s))" and st: "state (snd e') = COMPLETE"
    then obtain e where e: "e \<in> set (nodes s)" and "e' \<in> set (poll_node c s e)"
      by (auto simp: poll_phase_def)
    from poll_node_complete [OF this(2) st] e assms
    show "at_goal (goal (poll_phase c s)) (fst e') (snd e')"
      by (auto simp: complete_at_goal_def)
  qed
  have 2: "complete_at_goal (propagate r)" if "complete_at_goal r" for r
    unfolding complete_at_goal_def
  proof (intro ballI impI)
    fix e' assume "e' \<in> set (nodes (propagate r))" and st: "state (snd e') = COMPLETE"
    then have "e' \<in> set (propagate_failure (graph r) (nodes r))"
      by (simp add: propagate_def)
    from propagate_failure_entries [OF this] st have "e' \<in> set (nodes r)" by auto
    with that st show "at_goal (goal (propagate r)) (fst e') (snd e')"
      by (auto simp: complete_at_goal_def)
  qed
  have 3: "complete_at_goal (dispatch_phase c r)" if "complete_at_goal r" for r
    unfolding complete_at_goal_def
  proof (intro ballI impI)
    fix e' assume "e' \<in> set (nodes (dispatch_phase c r))" and st: "state (snd e') = COMPLETE"
    from dispatch_phase_entries [OF this] that st
    show "at_goal (goal (dispatch_phase c r)) (fst e') (snd e')"
      by (auto simp: complete_at_goal_def)
  qed
  have "complete_at_goal (propagate (dispatch_phase c (propagate (poll_phase c s))))"
    by (intro 1 2 3)
  then show ?thesis
    using True by (simp add: tick_def complete_at_goal_def)
qed

lemma rebuild_complete:
  "state (snd (rebuild_node t e)) = COMPLETE \<Longrightarrow> at_goal t (fst e) (snd (rebuild_node t e))"
  by (cases e) (auto simp: rebuild_node_def split: node_state.splits if_splits)

lemma rebuild_fst [simp]: "fst (rebuild_node t e) = fst e"
  by (cases e) (simp add: rebuild_node_def)

lemma add_nodes_entries:
  "e \<in> set (fst (add_nodes names i ns)) \<Longrightarrow> e \<in> set ns \<or> state (snd e) = PENDING"
proof (induction names i ns rule: add_nodes.induct)
  case (1 i ns)
  then show ?case by simp
next
  case (2 n rest i ns)
  then show ?case by (auto simp: new_node_def split: if_splits)
qed

lemma begin_traversal_goal [simp]: "goal (begin_traversal a t g s) = t"
  by (simp add: begin_traversal_def split: prod.splits)

lemma begin_traversal_complete_at_goal: "complete_at_goal (begin_traversal a t g s)"
  unfolding complete_at_goal_def
proof (intro ballI impI)
  fix e assume "e \<in> set (nodes (begin_traversal a t g s))" and st: "state (snd e) = COMPLETE"
  then have "e \<in> set (fst (add_nodes (map fst t) (next_id s) (map (rebuild_node t) (nodes s))))"
    by (simp add: begin_traversal_nodes)
  from add_nodes_entries [OF this] st obtain e0 where "e = rebuild_node t e0"
    by auto
  with st rebuild_complete [of t e0]
  show "at_goal (goal (begin_traversal a t g s)) (fst e) (snd e)"
    by simp
qed

lemma start_complete_at_goal: "start a rs s = Inr s' \<Longrightarrow> complete_at_goal s'"
  by (erule start_cases) (simp add: begin_traversal_complete_at_goal)

lemma reachable_complete_at_goal: "reachable c s \<Longrightarrow> complete_at_goal s"
proof (induction rule: reachable.induct)
  case (reach_new nm)
  show ?case by (simp add: new_stack_def complete_at_goal_def)
next
  case (reach_tick s)
  from reach_tick.IH show ?case by (rule tick_complete_at_goal)
next
  case (reach_create s rs s')
  then show ?case by (auto simp: create_stack_def start_complete_at_goal split: if_splits)
next
  case (reach_update s rs s')
  then show ?case by (auto simp: update_stack_def start_complete_at_goal split: if_splits)
next
  case (reach_rollback s s')
  then show ?case
    by (auto simp: rollback_stack_def start_complete_at_goal split: if_splits option.splits)
next
  case (reach_delete s s')
  then show ?case by (auto simp: delete_stack_def start_complete_at_goal split: if_splits)
qed

subsection \<open>A stack at rest\<close>

lemma finish_rest_ok: "in_flight s \<Longrightarrow> rest_ok (finish s)"
  by (auto simp: rest_ok_def finish_def list_all_iff)

lemma tick_rest_ok: "rest_ok s \<Longrightarrow> rest_ok (tick c s)"
proof (cases "in_flight s")
  case False
  assume "rest_ok s"
  with False show ?thesis by (simp add: tick_def rest_ok_def)
next
  case True
  let ?r = "propagate (dispatch_phase c (propagate (poll_phase c s)))"
  from True have "in_flight ?r" by simp
  then have "rest_ok (finish ?r)" by (rule finish_rest_ok)
  then show ?thesis using True by (simp add: tick_def rest_ok_def)
qed

lemma begin_traversal_in_flight [simp]: "in_flight (begin_traversal a t g s)"
  by (simp add: begin_traversal_def split: prod.splits)

lemma start_rest_ok: "start a rs s = Inr s' \<Longrightarrow> rest_ok s'"
  by (erule start_cases) (simp add: rest_ok_def)

lemma reachable_rest_ok: "reachable c s \<Longrightarrow> rest_ok s"
proof (induction rule: reachable.induct)
  case (reach_new nm)
  show ?case by (simp add: new_stack_def rest_ok_def)
next
  case (reach_tick s)
  from reach_tick.IH show ?case by (rule tick_rest_ok)
next
  case (reach_create s rs s')
  then show ?case by (auto simp: create_stack_def start_rest_ok split: if_splits)
next
  case (reach_update s rs s')
  then show ?case by (auto simp: update_stack_def start_rest_ok split: if_splits)
next
  case (reach_rollback s s')
  then show ?case
    by (auto simp: rollback_stack_def start_rest_ok split: if_splits option.splits)
next
  case (reach_delete s s')
  then show ?case by (auto simp: delete_stack_def start_rest_ok split: if_splits)
qed

subsection \<open>A node no operation is due for\<close>

lemma same_resource_refl [simp]: "same_resource nd nd"
  by (simp add: same_resource_def)

lemma propagate_kept_node:
  assumes "map_of (nodes s) x = Some nd'" and "state nd' = COMPLETE \<or> state nd' = FAILED"
    and "same_resource nd nd'"
  shows "\<exists>nd''. map_of (nodes (propagate s)) x = Some nd'' \<and>
           (state nd'' = COMPLETE \<or> state nd'' = FAILED) \<and> same_resource nd nd''"
proof -
  from propagate_failure_some [OF assms(1), of "graph s"]
  obtain nd'' where m: "map_of (propagate_failure (graph s) (nodes s)) x = Some nd''"
    and c: "nd'' = nd' \<or> (\<exists>d. nd'' = nd'\<lparr>state := FAILED, failure := Some (DependencyFailedError d)\<rparr>)"
    by blast
  from c assms(2,3) have "(state nd'' = COMPLETE \<or> state nd'' = FAILED) \<and> same_resource nd nd''"
    by (auto simp: same_resource_def)
  with m show ?thesis by (simp add: propagate_def)
qed

lemma dispatch_kept_node:
  assumes d: "distinct (map fst (nodes s))"
    and m: "map_of (nodes s) x = Some nd'" and st: "state nd' = COMPLETE \<or> state nd' = FAILED"
  shows "map_of (nodes (dispatch_phase c s)) x = Some nd'"
    and "x \<notin> fst ` set (dispatched s) \<Longrightarrow> x \<notin> fst ` set (dispatched (dispatch_phase c s))"
proof -
  let ?r = "promote s"
  from m st have pm: "map_of (nodes ?r) x = Some nd'"
    by (auto simp: promote_map_of)
  from st have "dispatch_node c ?r (x, nd') = (x, nd')"
    by (auto simp: dispatch_node_def)
  with pm show "map_of (nodes (dispatch_phase c s)) x = Some nd'"
    by (simp add: dispatch_phase_nodes dispatch_map_of)
  assume nd: "x \<notin> fst ` set (dispatched s)"
  have "x \<notin> fst ` set (concat (map (dispatch_event c ?r) (nodes ?r)))"
  proof
    assume "x \<in> fst ` set (concat (map (dispatch_event c ?r) (nodes ?r)))"
    then obtain opn e where e: "e \<in> set (nodes ?r)" and ev: "(x, opn) \<in> set (dispatch_event c ?r e)"
      by auto
    from dispatch_event_cases [OF ev] have fx: "fst e = x" and r: "state (snd e) = READY"
      by simp_all
    from d have "distinct (map fst (nodes ?r))" by simp
    moreover from e fx have "(x, snd e) \<in> set (nodes ?r)" by (cases e) auto
    ultimately have "map_of (nodes ?r) x = Some (snd e)" by (rule map_of_is_SomeI)
    with pm r st show False by auto
  qed
  with nd show "x \<notin> fst ` set (dispatched (dispatch_phase c s))"
    by (simp add: dispatch_phase_dispatched image_Un)
qed

lemma tick_kept:
  assumes "kept x nd s"
  shows "kept x nd (tick c s)"
proof (cases "in_flight s")
  case False
  then have "nodes (tick c s) = nodes s" "dispatched (tick c s) = dispatched s"
    by (simp_all add: tick_def)
  with assms show ?thesis by (simp only: kept_def simp_thms)
next
  case True
  from assms obtain nd0 where d: "distinct (map fst (nodes s))"
    and nl: "x \<notin> fst ` set (dispatched s)"
    and m0: "map_of (nodes s) x = Some nd0"
    and st0: "state nd0 = COMPLETE \<or> state nd0 = FAILED" and sr0: "same_resource nd nd0"
    by (auto simp: kept_def)
  let ?s1 = "poll_phase c s"
  from st0 have "state nd0 \<noteq> IN_PROGRESS" by auto
  with m0 have m1: "map_of (nodes ?s1) x = Some nd0"
    by (simp add: poll_phase_def poll_map_of_other)
  have d1: "distinct (map fst (nodes ?s1))"
    using d by (rule poll_phase_distinct)
  let ?s2 = "propagate ?s1"
  from propagate_kept_node [OF m1 st0 sr0] obtain nd2 where
    m2: "map_of (nodes ?s2) x = Some nd2"
    and st2: "state nd2 = COMPLETE \<or> state nd2 = FAILED" and sr2: "same_resource nd nd2"
    by blast
  from d1 have d2: "distinct (map fst (nodes ?s2))" by simp
  let ?s3 = "dispatch_phase c ?s2"
  from nl have nl2: "x \<notin> fst ` set (dispatched ?s2)" by simp
  from dispatch_kept_node [OF d2 m2 st2]  nl2
  have m3: "map_of (nodes ?s3) x = Some nd2" and nl3: "x \<notin> fst ` set (dispatched ?s3)"
    by simp_all
  let ?s4 = "propagate ?s3"
  from propagate_kept_node [OF m3 st2 sr2] obtain nd4 where
    m4: "map_of (nodes ?s4) x = Some nd4"
    and st4: "state nd4 = COMPLETE \<or> state nd4 = FAILED" and sr4: "same_resource nd nd4"
    by blast
  have t: "nodes (tick c s) = nodes ?s4" "dispatched (tick c s) = dispatched ?s3"
    using True by (simp_all add: tick_def)
  from d2 have d4: "distinct (map fst (nodes ?s4))" by simp
  from m4 st4 sr4 have "\<exists>nd'. map_of (nodes ?s4) x = Some nd' \<and>
      (state nd' = COMPLETE \<or> state nd' = FAILED) \<and> same_resource nd nd'"
    by (intro exI [of _ nd4] conjI)
  with d4 nl3 show ?thesis
    unfolding kept_def t by (intro conjI)
qed

lemma advance_kept: "kept x nd s \<Longrightarrow> kept x nd (advance c k s)"
  by (induction k arbitrary: s) (simp_all add: tick_kept)

lemma add_nodes_map_of:
  "map_of ns x = Some nd \<Longrightarrow> map_of (fst (add_nodes names i ns)) x = Some nd"
proof (induction names i ns rule: add_nodes.induct)
  case (1 i ns)
  then show ?case by simp
next
  case (2 n rest i ns)
  show ?case
  proof (cases "n \<in> set (map fst ns)")
    case True
    with 2 show ?thesis by simp
  next
    case False
    from "2.prems" have "map_of (ns @ [(n, new_node i)]) x = Some nd"
      by (simp add: map_add_find_right)
    from "2.IH"(2) [OF False this] False show ?thesis by simp
  qed
qed

lemma rebuild_map_of:
  "map_of (map (rebuild_node t) ns) x = map_option (\<lambda>nd. snd (rebuild_node t (x, nd))) (map_of ns x)"
proof (induction ns)
  case Nil
  then show ?case by simp
next
  case (Cons e ns)
  obtain k v where e: "e = (k, v)" by (cases e)
  obtain v' where "rebuild_node t (k, v) = (k, v')"
    by (simp add: rebuild_node_def)
  with Cons e show ?case by auto
qed

lemma begin_traversal_dispatched [simp]: "dispatched (begin_traversal a t g s) = []"
  by (simp add: begin_traversal_def split: prod.splits)

lemma begin_traversal_kept:
  assumes "distinct (map fst (nodes s))" and "map_of (nodes s) x = Some nd"
    and "state nd = COMPLETE" and "at_goal t x nd"
  shows "kept x nd (begin_traversal a t g s)"
proof -
  from assms(3,4) have "snd (rebuild_node t (x, nd)) = nd"
    by (simp add: rebuild_node_def)
  with assms(2) have "map_of (map (rebuild_node t) (nodes s)) x = Some nd"
    by (simp add: rebuild_map_of)
  then have "map_of (nodes (begin_traversal a t g s)) x = Some nd"
    unfolding begin_traversal_nodes by (rule add_nodes_map_of)
  with begin_traversal_distinct [OF assms(1), of a t g] assms(3) show ?thesis
    by (auto simp: kept_def)
qed

text \<open>
  C5. Let a stack have converged on a template (it is reachable, at rest in the status
  COMPLETE, with that template as its current one), and let \<open>update_stack\<close> accept a goal
  template that gives every resource other than \<open>r\<close> the definition it had. Then after
  any number of ticks of the update's traversal, against any collaborator, every resource
  other than \<open>r\<close> that had a node still has one, with the same node id, the same resource
  identity and the same outputs, and the traversal has dispatched no operation for it. And
  the TapFlow plug-in's update with an empty property diff returns at once, leaving the
  resource with its record of client calls as it was, and its completion check returns
  \<open>True\<close> at once, again without a client call.
\<close>

theorem unrelated_resources_untouched:
  assumes r: "reachable c s"
    and st: "status s = STACK_COMPLETE" and cur: "current s = Some t0"
    and u: "update_stack t1 s = Inr s1"
    and only: "\<forall>x. x \<noteq> r \<longrightarrow> map_of t1 x = map_of t0 x"
  shows "(\<forall>k x nd. x \<noteq> r \<and> map_of (nodes s) x = Some nd \<longrightarrow>
            x \<notin> fst ` set (dispatched (advance c' k s1)) \<and>
            (\<exists>nd'. map_of (nodes (advance c' k s1)) x = Some nd' \<and>
                   node_id nd' = node_id nd \<and> identity nd' = identity nd \<and>
                   outputs nd' = outputs nd)) \<and>
         handle_update env [] self = (Inr (), self) \<and>
         check_update_complete env [] self = (Inr True, self)"
proof -
  have engine: "\<forall>k x nd. x \<noteq> r \<and> map_of (nodes s) x = Some nd \<longrightarrow>
            x \<notin> fst ` set (dispatched (advance c' k s1)) \<and>
            (\<exists>nd'. map_of (nodes (advance c' k s1)) x = Some nd' \<and>
                   node_id nd' = node_id nd \<and> identity nd' = identity nd \<and>
                   outputs nd' = outputs nd)"
  proof (intro allI impI)
    fix k x nd assume a: "x \<noteq> r \<and> map_of (nodes s) x = Some nd"
    from u have nf: "\<not> in_flight s" and "start UPDATE t1 s = Inr s1"
      by (auto simp: update_stack_def split: if_splits)
    then obtain g where s1: "s1 = begin_traversal UPDATE t1 g s"
      by (auto elim: start_cases)
    from reachable_rest_ok [OF r] nf st cur
    have all: "\<forall>e\<in>set (nodes s). state (snd e) = COMPLETE" and g: "goal s = t0"
      by (auto simp: rest_ok_def)
    from a have mem: "(x, nd) \<in> set (nodes s)" by (auto dest: map_of_SomeD)
    with all have c: "state nd = COMPLETE" by auto
    with reachable_complete_at_goal [OF r] mem g have "at_goal t0 x nd"
      by (auto simp: complete_at_goal_def)
    with only a have "at_goal t1 x nd" by (simp add: at_goal_def)
    with reachable_distinct [OF r] a c have "kept x nd s1"
      unfolding s1 by (intro begin_traversal_kept) simp_all
    then have "kept x nd (advance c' k s1)" by (rule advance_kept)
    then show "x \<notin> fst ` set (dispatched (advance c' k s1)) \<and>
              (\<exists>nd'. map_of (nodes (advance c' k s1)) x = Some nd' \<and>
                     node_id nd' = node_id nd \<and> identity nd' = identity nd \<and>
                     outputs nd' = outputs nd)"
      by (auto simp: kept_def same_resource_def)
  qed
  have "handle_update env [] self = (Inr (), self)"
    by (simp add: handle_update_def)
  moreover have "check_update_complete env [] self = (Inr True, self)"
    by (simp add: check_update_complete_def)
  ultimately show ?thesis
    using engine by (intro conjI)
qed

lemma reachable_converged: "reachable prompt (advance prompt 4 just_created)"
  using reachable_just_created by (rule reachable_advance)

theorem unrelated_resources_untouched_witness:
  "reachable prompt (advance prompt 4 just_created) \<and>
   status (advance prompt 4 just_created) = STACK_COMPLETE \<and>
   current (advance prompt 4 just_created) = Some example_template \<and>
   update_stack example_template_final (advance prompt 4 just_created) = Inr being_updated \<and>
   map (map_of example_template_final) [''A'', ''B'', ''D'', ''E''] =
     map (map_of example_template) [''A'', ''B'', ''D'', ''E''] \<and>
   map_of (nodes (advance prompt 4 just_created)) ''D'' \<noteq> None \<and>
   ''D'' \<notin> fst ` set (dispatched (advance unhurried 3 being_updated)) \<and>
   map_option node_id (map_of (nodes (advance unhurried 3 being_updated)) ''D'') =
     map_option node_id (map_of (nodes (advance prompt 4 just_created)) ''D'') \<and>
   map_option outputs (map_of (nodes (advance unhurried 3 being_updated)) ''D'') =
     map_option outputs (map_of (nodes (advance prompt 4 just_created)) ''D'') \<and>
   handle_update sample_neutron [] (sample_flow (Some ''f1'') []) =
     (Inr (), sample_flow (Some ''f1'') []) \<and>
   check_update_complete sample_neutron [] (sample_flow (Some ''f1'') []) =
     (Inr True, sample_flow (Some ''f1'') [])"
proof -
  let ?s = "advance prompt 4 just_created"
  have st: "status ?s = STACK_COMPLETE"
    by code_simp
  have cur: "current ?s = Some example_template"
    by code_simp
  have u: "update_stack example_template_final ?s = Inr being_updated"
    by code_simp
  have only: "\<forall>x. x \<noteq> ''C'' \<longrightarrow> map_of example_template_final x = map_of example_template x"
    by (simp add: example_template_def example_template_final_def)
  have same: "map (map_of example_template_final) [''A'', ''B'', ''D'', ''E''] =
     map (map_of example_template) [''A'', ''B'', ''D'', ''E'']"
    by (simp add: example_template_def example_template_final_def)
  have d: "map_of (nodes ?s) ''D'' \<noteq> None"
    by code_simp
  then obtain nd where nd: "map_of (nodes ?s) ''D'' = Some nd"
    by blast
  note inst = unrelated_resources_untouched [where c' = unhurried and env = sample_neutron
      and self = "sample_flow (Some ''f1'') []", OF reachable_converged st cur u only]
  from inst nd have "''D'' \<notin> fst ` set (dispatched (advance unhurried 3 being_updated)) \<and>
      (\<exists>nd'. map_of (nodes (advance unhurried 3 being_updated)) ''D'' = Some nd' \<and>
             node_id nd' = node_id nd \<and> identity nd' = identity nd \<and> outputs nd' = outputs nd)"
    by simp
  with nd have k: "''D'' \<notin> fst ` set (dispatched (advance unhurried 3 being_updated))"
    "map_option node_id (map_of (nodes (advance unhurried 3 being_updated)) ''D'') =
       map_option node_id (map_of (nodes ?s) ''D'')"
    "map_option outputs (map_of (nodes (advance unhurried 3 being_updated)) ''D'') =
       map_option outputs (map_of (nodes ?s) ''D'')"
    by auto
  from inst have t: "handle_update sample_neutron [] (sample_flow (Some ''f1'') []) =
      (Inr (), sample_flow (Some ''f1'') [])"
    "check_update_complete sample_neutron [] (sample_flow (Some ''f1'') []) =
      (Inr True, sample_flow (Some ''f1'') [])"
    by simp_all
  from reachable_converged st cur u same d k t show ?thesis
    by (intro conjI)
qed

subsection \<open>The scenario\<close>

lemma scenario_created:
  "holds_in stage_created (\<lambda>s.
     status s = STACK_COMPLETE \<and> \<not> in_flight s \<and> all_complete s \<and>
     map fst (nodes s) = [''A'', ''B'', ''C'', ''D'', ''E''] \<and>
     current s = Some example_template \<and>
     property_of s ''A'' ''a'' = Some ''initial'' \<and>
     property_of s ''C'' ''!a'' = Some ''initial'' \<and>
     property_of s ''E'' ''ca'' = Some ''initial'')"
  by code_simp

lemma scenario_updating:
  "holds_in stage_updating (\<lambda>s.
     status s = STACK_IN_PROGRESS \<and> in_flight s \<and>
     state_of (nodes s) ''A'' = Some IN_PROGRESS \<and>
     dispatched s = [(''A'', Update)] \<and>
     property_of s ''A'' ''a'' = Some ''updated'' \<and>
     current s = Some example_template)"
  by code_simp

lemma scenario_rolled_back:
  "holds_in stage_rolled_back (\<lambda>s.
     status s = STACK_COMPLETE \<and> \<not> in_flight s \<and> all_complete s \<and>
     map fst (nodes s) = [''A'', ''B'', ''C'', ''D'', ''E''] \<and>
     current s = Some example_template \<and>
     property_of s ''A'' ''a'' = Some ''initial'' \<and>
     property_of s ''C'' ''!a'' = Some ''initial'')"
  by code_simp

lemma scenario_final:
  "holds_in stage_final (\<lambda>s.
     status s = STACK_COMPLETE \<and> \<not> in_flight s \<and> all_complete s \<and>
     map fst (nodes s) = [''A'', ''B'', ''C'', ''D'', ''E''] \<and>
     current s = Some example_template_final \<and>
     dispatched s = [(''C'', Update)] \<and>
     property_of s ''C'' ''b'' = Some ''val2'' \<and>
     property_of s ''C'' ''!a'' = Some ''initial'')"
  by code_simp

lemma scenario_untouched:
  "same_node stage_rolled_back stage_final ''A'' \<and>
   same_node stage_rolled_back stage_final ''B'' \<and>
   same_node stage_rolled_back stage_final ''D'' \<and>
   same_node stage_rolled_back stage_final ''E''"
  by code_simp

lemma scenario_deleted:
  "holds_in stage_deleted (\<lambda>s.
     nodes s = [] \<and> \<not> in_flight s \<and>
     get_stack_state s = (None, [], STACK_COMPLETE))"
  by code_simp

text \<open>
  C1. The scenario of \<open>update_user_replace_rollback_update.py\<close>, run with the script's
  numbers of ticks. After \<open>create_stack\<close> and 5 ticks the stack is COMPLETE with all five
  nodes COMPLETE and \<open>C.!a\<close> is \<open>initial\<close>. After the update of \<open>A.a\<close> and 3 ticks the
  update of \<open>A\<close> is dispatched and not complete; \<open>rollback_stack\<close> and 12 ticks bring
  the stack back to COMPLETE on the first template with \<open>A.a\<close> and \<open>C.!a\<close> both
  \<open>initial\<close>. The update that changes only \<open>C.b\<close> converges with \<open>C.b\<close> \<open>val2\<close> and
  \<open>C.!a\<close> still \<open>initial\<close>, having dispatched the update of \<open>C\<close> and nothing else, and
  the nodes of \<open>A\<close>, \<open>B\<close>, \<open>D\<close> and \<open>E\<close> are what they were. After \<open>delete_stack\<close> and 6
  ticks no node is left and the stack state is empty.
\<close>

theorem scenario:
  "holds_in stage_created (\<lambda>s.
     status s = STACK_COMPLETE \<and> \<not> in_flight s \<and> all_complete s \<and>
     map fst (nodes s) = [''A'', ''B'', ''C'', ''D'', ''E''] \<and>
     current s = Some example_template \<and>
     property_of s ''A'' ''a'' = Some ''initial'' \<and>
     property_of s ''C'' ''!a'' = Some ''initial'' \<and>
     property_of s ''E'' ''ca'' = Some ''initial'') \<and>
   holds_in stage_updating (\<lambda>s.
     status s = STACK_IN_PROGRESS \<and> in_flight s \<and>
     state_of (nodes s) ''A'' = Some IN_PROGRESS \<and>
     dispatched s = [(''A'', Update)] \<and>
     property_of s ''A'' ''a'' = Some ''updated'' \<and>
     current s = Some example_template) \<and>
   holds_in stage_rolled_back (\<lambda>s.
     status s = STACK_COMPLETE \<and> \<not> in_flight s \<and> all_complete s \<and>
     map fst (nodes s) = [''A'', ''B'', ''C'', ''D'', ''E''] \<and>
     current s = Some example_template \<and>
     property_of s ''A'' ''a'' = Some ''initial'' \<and>
     property_of s ''C'' ''!a'' = Some ''initial'') \<and>
   holds_in stage_final (\<lambda>s.
     status s = STACK_COMPLETE \<and> \<not> in_flight s \<and> all_complete s \<and>
     map fst (nodes s) = [''A'', ''B'', ''C'', ''D'', ''E''] \<and>
     current s = Some example_template_final \<and>
     dispatched s = [(''C'', Update)] \<and>
     property_of s ''C'' ''b'' = Some ''val2'' \<and>
     property_of s ''C'' ''!a'' = Some ''initial'') \<and>
   same_node stage_rolled_back stage_final ''A'' \<and>
   same_node stage_rolled_back stage_final ''B'' \<and>
   same_node stage_rolled_back stage_final ''D'' \<and>
   same_node stage_rolled_back stage_final ''E'' \<and>
   holds_in stage_deleted (\<lambda>s.
     nodes s = [] \<and> \<not> in_flight s \<and>
     get_stack_state s = (None, [], STACK_COMPLETE))"
  using scenario_created scenario_updating scenario_rolled_back scenario_final
    scenario_untouched scenario_deleted
  by (intro conjI) simp_all

end
